theory Spec2Isabelle
  imports Main "HOL-Library.Sublist"
begin

section \<open>Strings and identifiers\<close>

text \<open>
  The scripts run on JavaScript strings, which are sequences of UTF-16 code units:
  \<^verbatim>\<open>s.length\<close>, \<^verbatim>\<open>s[i]\<close>, \<^verbatim>\<open>indexOf\<close>, \<^verbatim>\<open>substring\<close> and the regular
  expressions (none carries the \<^verbatim>\<open>u\<close> flag) all count code units. A string is
  therefore a list of code units, each a natural number below 65536. Law identifiers,
  titles and document texts are such strings.

  Objects, \<^verbatim>\<open>Map\<close>s and \<^verbatim>\<open>Set\<close>s that the scripts use as dictionaries keyed by law
  identifiers are modelled as maps, association lists and sets; the keys are law
  identifiers, never the names of properties inherited from \<^verbatim>\<open>Object.prototype\<close>.
\<close>

type_synonym jsstring = "nat list"

definition ascii :: "string \<Rightarrow> jsstring" where
  "ascii s = map of_char s"

text \<open>JavaScript truthiness of a string, and of a \<^verbatim>\<open>string | null\<close> value.\<close>

definition truthy :: "jsstring \<Rightarrow> bool" where
  "truthy s = (s \<noteq> [])"

definition truthy_opt :: "jsstring option \<Rightarrow> bool" where
  "truthy_opt v = (case v of None \<Rightarrow> False | Some s \<Rightarrow> truthy s)"


section \<open>Reachability by breadth-first search\<close>

text \<open>
  \<^verbatim>\<open>build_full_graph.ts\<close> keeps the forward adjacency as a
  \<^verbatim>\<open>Map<string, Map<string, number>>\<close> and walks the keys of the inner map, the
  reverse adjacency as a \<^verbatim>\<open>Map<string, Set<string>>\<close>; \<^verbatim>\<open>build_graph_multi.ts\<close>
  hands the workers the same data as objects of arrays
  (\<^verbatim>\<open>outgoingObj[key] = Array.from(value.keys())\<close>). In every variant the search only
  reads, for a node, the ordered list of its neighbours, so an adjacency is an
  association list from a node to that list.
\<close>

type_synonym adjacency = "(jsstring \<times> jsstring list) list"

text \<open>\<^verbatim>\<open>outgoing[id] || []\<close>, respectively \<^verbatim>\<open>outgoing.get(id)\<close> followed by
  \<^verbatim>\<open>if (!neighbors) continue\<close>.\<close>

definition neighbors_of :: "adjacency \<Rightarrow> jsstring \<Rightarrow> jsstring list" where
  "neighbors_of adj i = (case map_of adj i of None \<Rightarrow> [] | Some ns \<Rightarrow> ns)"

text \<open>
  The state of the search: the FIFO \<^verbatim>\<open>queue\<close> of \<^verbatim>\<open>{id, dist}\<close> entries, the
  \<^verbatim>\<open>visited\<close> set and the \<^verbatim>\<open>distances\<close> recorded so far.
\<close>

type_synonym bfs_state = "(jsstring \<times> nat) list \<times> jsstring set \<times> (jsstring \<rightharpoonup> nat)"

text \<open>
  The inner loop
  \<^verbatim>\<open>for (const neighborId of neighbors) if (!visited.has(neighborId)) { visited.add(neighborId);
  distances[neighborId] = dist + 1; queue.push({ id: neighborId, dist: dist + 1 }); }\<close>
\<close>

fun visit_neighbors :: "jsstring list \<Rightarrow> nat \<Rightarrow> bfs_state \<Rightarrow> bfs_state" where
  "visit_neighbors [] dist st = st"
| "visit_neighbors (n # ns) dist (queue, visited, distances) =
     (if n \<notin> visited
      then visit_neighbors ns dist
             (queue @ [(n, dist + 1)], insert n visited, distances(n \<mapsto> dist + 1))
      else visit_neighbors ns dist (queue, visited, distances))"

text \<open>
  The test \<^verbatim>\<open>if (dist >= maxHops) continue\<close>. The hop limit is \<^verbatim>\<open>None\<close> where the
  search has no such test (\<^verbatim>\<open>computeReachabilityInfinite\<close> of \<^verbatim>\<open>graph_worker.js\<close>).
\<close>

definition hop_limit_reached :: "nat \<Rightarrow> nat option \<Rightarrow> bool" where
  "hop_limit_reached dist maxHops = (case maxHops of None \<Rightarrow> False | Some h \<Rightarrow> dist \<ge> h)"

definition nodes_of :: "adjacency \<Rightarrow> jsstring set" where
  "nodes_of adj = (\<Union>(k, ns) \<in> set adj. set ns)"

lemma finite_nodes_of: "finite (nodes_of adj)"
  by (auto simp: nodes_of_def)

lemma neighbors_of_nodes: "set (neighbors_of adj i) \<subseteq> nodes_of adj"
proof
  fix x assume "x \<in> set (neighbors_of adj i)"
  then obtain ns where "map_of adj i = Some ns" and "x \<in> set ns"
    by (cases "map_of adj i") (auto simp: neighbors_of_def)
  then have "(i, ns) \<in> set adj" by (simp add: map_of_SomeD)
  with \<open>x \<in> set ns\<close> show "x \<in> nodes_of adj"
    unfolding nodes_of_def by blast
qed

text \<open>What the inner loop leaves behind, in closed form.\<close>

fun fresh :: "jsstring list \<Rightarrow> jsstring set \<Rightarrow> jsstring list" where
  "fresh [] visited = []"
| "fresh (n # ns) visited =
     (if n \<notin> visited then n # fresh ns (insert n visited) else fresh ns visited)"

lemma set_fresh: "set (fresh ns visited) = set ns - visited"
  by (induction ns arbitrary: visited) auto

lemma distinct_fresh: "distinct (fresh ns visited)"
  by (induction ns arbitrary: visited) (auto simp: set_fresh)

lemma visit_neighbors_closed:
  "visit_neighbors ns dist (queue, visited, distances) =
     (queue @ map (\<lambda>n. (n, dist + 1)) (fresh ns visited),
      visited \<union> set ns,
      (\<lambda>v. if v \<in> set ns - visited then Some (dist + 1) else distances v))"
proof (induction ns arbitrary: queue visited distances)
  case Nil
  show ?case by simp
next
  case (Cons n ns)
  show ?case
  proof (cases "n \<in> visited")
    case True
    then show ?thesis
      using Cons.IH [of queue visited distances] by (auto simp: fun_eq_iff)
  next
    case False
    have f: "(\<lambda>v. if v \<in> set ns - insert n visited then Some (dist + 1)
               else (distances(n \<mapsto> dist + 1)) v)
          = (\<lambda>v. if v \<in> set (n # ns) - visited then Some (dist + 1) else distances v)"
      using False by (intro ext) auto
    have "visit_neighbors (n # ns) dist (queue, visited, distances)
          = visit_neighbors ns dist
              (queue @ [(n, dist + 1)], insert n visited, distances(n \<mapsto> dist + 1))"
      using False by simp
    also have "\<dots> = ((queue @ [(n, dist + 1)]) @ map (\<lambda>n. (n, dist + 1)) (fresh ns (insert n visited)),
                     insert n visited \<union> set ns,
                     (\<lambda>v. if v \<in> set ns - insert n visited then Some (dist + 1)
                          else (distances(n \<mapsto> dist + 1)) v))"
      by (rule Cons.IH)
    also have "\<dots> = (queue @ map (\<lambda>n. (n, dist + 1)) (fresh (n # ns) visited),
                     visited \<union> set (n # ns),
                     (\<lambda>v. if v \<in> set (n # ns) - visited then Some (dist + 1) else distances v))"
      unfolding f using False by simp
    finally show ?thesis .
  qed
qed

lemma visit_neighbors_measure:
  assumes "visit_neighbors ns dist (queue, visited, distances) = (queue', visited', distances')"
    and "set ns \<subseteq> U" and "finite U"
  shows "2 * card (U - visited') + length queue' \<le> 2 * card (U - visited) + length queue"
proof -
  let ?new = "fresh ns visited"
  from assms(1) have q: "queue' = queue @ map (\<lambda>n. (n, dist + 1)) ?new"
    and v: "visited' = visited \<union> set ns"
    by (simp_all add: visit_neighbors_closed)
  have disj: "(U - visited') \<inter> set ?new = {}"
    using v by (auto simp: set_fresh)
  have un: "(U - visited') \<union> set ?new = U - visited"
    using v assms(2) by (auto simp: set_fresh)
  have "card (U - visited) = card (U - visited') + card (set ?new)"
    using card_Un_disjoint [OF _ _ disj] assms(3) un by simp
  then have "card (U - visited) = card (U - visited') + length ?new"
    by (simp add: distinct_card [OF distinct_fresh])
  with q show ?thesis by simp
qed

text \<open>
  The outer loop \<^verbatim>\<open>while (queue.length > 0) { const { id, dist } = queue.shift()!; ... }\<close>.
  It ends because every pass removes one queue entry and every entry added marks a node
  of the (finite) adjacency as visited for the first time.
\<close>

function bfs_loop :: "adjacency \<Rightarrow> nat option \<Rightarrow> bfs_state \<Rightarrow> (jsstring \<rightharpoonup> nat)" where
  "bfs_loop adj maxHops ([], visited, distances) = distances"
| "bfs_loop adj maxHops ((i, dist) # queue, visited, distances) =
     (if hop_limit_reached dist maxHops
      then bfs_loop adj maxHops (queue, visited, distances)
      else bfs_loop adj maxHops
             (visit_neighbors (neighbors_of adj i) dist (queue, visited, distances)))"
  by pat_completeness auto
termination
proof (relation "measure (\<lambda>(adj, maxHops, queue, visited, distances).
                   2 * card (nodes_of adj - visited) + length queue)", goal_cases)
  case 1
  show ?case by simp
next
  case (2 adj maxHops i dist queue visited distances)
  show ?case by simp
next
  case (3 adj maxHops i dist queue visited distances)
  obtain queue' visited' distances' where
    st: "visit_neighbors (neighbors_of adj i) dist (queue, visited, distances)
           = (queue', visited', distances')"
    by (cases "visit_neighbors (neighbors_of adj i) dist (queue, visited, distances)") auto
  from visit_neighbors_measure [OF st neighbors_of_nodes finite_nodes_of]
  show ?case by (simp add: st)
qed

declare bfs_loop.simps [simp del]

text \<open>
  \<^verbatim>\<open>computeReachability(startId, outgoing, maxHops)\<close> of \<^verbatim>\<open>build_full_graph.ts\<close> and
  \<^verbatim>\<open>graph_worker.ts\<close>; \<^verbatim>\<open>computeReverseReachability\<close> is the same loop over the
  reverse adjacency (in \<^verbatim>\<open>build_full_graph.ts\<close> its extra \<^verbatim>\<open>outgoing\<close> parameter is
  never read); \<^verbatim>\<open>computeReachabilityInfinite(startId, adjacency)\<close> of
  \<^verbatim>\<open>graph_worker.js\<close> is the loop without the hop test. In \<^verbatim>\<open>build_full_graph.ts\<close> the
  parameter \<^verbatim>\<open>maxHops\<close> has the default 100; every call passes 50.
\<close>

definition computeReachability :: "jsstring \<Rightarrow> adjacency \<Rightarrow> nat \<Rightarrow> (jsstring \<rightharpoonup> nat)" where
  "computeReachability startId outgoing maxHops =
     bfs_loop outgoing (Some maxHops) ([(startId, 0)], {startId}, Map.empty)"

definition computeReverseReachability :: "jsstring \<Rightarrow> adjacency \<Rightarrow> nat \<Rightarrow> (jsstring \<rightharpoonup> nat)" where
  "computeReverseReachability targetId incoming maxHops =
     bfs_loop incoming (Some maxHops) ([(targetId, 0)], {targetId}, Map.empty)"

definition computeReachabilityInfinite :: "jsstring \<Rightarrow> adjacency \<Rightarrow> (jsstring \<rightharpoonup> nat)" where
  "computeReachabilityInfinite startId adjacency =
     bfs_loop adjacency None ([(startId, 0)], {startId}, Map.empty)"

subsection \<open>Paths and shortest distances\<close>

text \<open>
  The directed graph of an adjacency: an edge from \<open>u\<close> to every neighbour listed for
  \<open>u\<close>. A path of \<open>k\<close> hops is a \<open>k\<close>-fold composition of the edge relation; the
  shortest path length from \<open>s\<close> to \<open>v\<close> is the least such \<open>k\<close>.
\<close>

definition edges :: "adjacency \<Rightarrow> (jsstring \<times> jsstring) set" where
  "edges adj = {(u, v). v \<in> set (neighbors_of adj u)}"

definition path_of_length :: "adjacency \<Rightarrow> jsstring \<Rightarrow> jsstring \<Rightarrow> nat \<Rightarrow> bool" where
  "path_of_length adj s v k = ((s, v) \<in> edges adj ^^ k)"

definition shortest_path_length :: "adjacency \<Rightarrow> jsstring \<Rightarrow> jsstring \<Rightarrow> nat \<Rightarrow> bool" where
  "shortest_path_length adj s v d =
     (path_of_length adj s v d \<and> (\<forall>k. path_of_length adj s v k \<longrightarrow> d \<le> k))"

definition within_limit :: "nat \<Rightarrow> nat option \<Rightarrow> bool" where
  "within_limit k maxHops = (case maxHops of None \<Rightarrow> True | Some h \<Rightarrow> k \<le> h)"

definition recorded :: "jsstring \<Rightarrow> (jsstring \<rightharpoonup> nat) \<Rightarrow> jsstring \<Rightarrow> nat option" where
  "recorded s distances v = (if v = s then Some 0 else distances v)"

lemma path_of_length_0 [simp]: "path_of_length adj s v 0 = (v = s)"
  by (auto simp: path_of_length_def)

lemma path_of_length_Suc:
  "path_of_length adj s v (Suc k) = (\<exists>u. path_of_length adj s u k \<and> v \<in> set (neighbors_of adj u))"
  by (auto simp: path_of_length_def edges_def)

lemma shortest_unique:
  "shortest_path_length adj s v d \<Longrightarrow> shortest_path_length adj s v d' \<Longrightarrow> d = d'"
  by (auto simp: shortest_path_length_def intro: antisym)

lemma within_limit_mono: "within_limit k H \<Longrightarrow> j \<le> k \<Longrightarrow> within_limit j H"
  by (auto simp: within_limit_def split: option.splits)

lemma not_reached_iff: "(\<not> hop_limit_reached d H) = within_limit (Suc d) H"
  by (auto simp: within_limit_def hop_limit_reached_def split: option.splits)

subsection \<open>The loop invariant\<close>

text \<open>
  The invariant of the outer loop, for the search started at \<open>s\<close>: the visited nodes are
  the source and the recorded nodes; every recorded distance is the shortest path length
  and within the hop limit; queue entries carry the recorded distance of their node, in
  ascending order and spanning at most two consecutive levels; every node within reach
  of the level at the head of the queue is visited; and every visited node that has left
  the queue below the hop limit has all its neighbours visited.
\<close>

definition bfs_inv ::
  "adjacency \<Rightarrow> jsstring \<Rightarrow> nat option \<Rightarrow> (jsstring \<times> nat) list \<Rightarrow> jsstring set
     \<Rightarrow> (jsstring \<rightharpoonup> nat) \<Rightarrow> bool" where
  "bfs_inv adj s H queue visited distances =
    (visited = insert s (dom distances) \<and> s \<notin> dom distances \<and>
     (\<forall>v d. distances v = Some d \<longrightarrow> shortest_path_length adj s v d \<and> within_limit d H) \<and>
     (\<forall>e \<in> set queue. recorded s distances (fst e) = Some (snd e)) \<and>
     sorted (map snd queue) \<and> (\<forall>e \<in> set queue. snd e \<le> snd (hd queue) + 1) \<and>
     (queue \<noteq> [] \<longrightarrow>
        (\<forall>x k. path_of_length adj s x k \<and> k \<le> snd (hd queue) \<and> within_limit k H
           \<longrightarrow> x \<in> visited)) \<and>
     (\<forall>v d. recorded s distances v = Some d \<and> (v, d) \<notin> set queue \<and> \<not> hop_limit_reached d H
        \<longrightarrow> set (neighbors_of adj v) \<subseteq> visited))"

lemma bfs_invI:
  assumes "visited = insert s (dom distances)" and "s \<notin> dom distances"
    and "\<And>v d. distances v = Some d \<Longrightarrow> shortest_path_length adj s v d \<and> within_limit d H"
    and "\<And>e. e \<in> set queue \<Longrightarrow> recorded s distances (fst e) = Some (snd e)"
    and "sorted (map snd queue)"
    and "\<And>e. e \<in> set queue \<Longrightarrow> snd e \<le> snd (hd queue) + 1"
    and "\<And>x k. queue \<noteq> [] \<Longrightarrow> path_of_length adj s x k \<Longrightarrow> k \<le> snd (hd queue)
           \<Longrightarrow> within_limit k H \<Longrightarrow> x \<in> visited"
    and "\<And>v d. recorded s distances v = Some d \<Longrightarrow> (v, d) \<notin> set queue
           \<Longrightarrow> \<not> hop_limit_reached d H \<Longrightarrow> set (neighbors_of adj v) \<subseteq> visited"
  shows "bfs_inv adj s H queue visited distances"
  unfolding bfs_inv_def using assms by blast

lemma bfs_invD:
  assumes "bfs_inv adj s H queue visited distances"
  shows "visited = insert s (dom distances)" and "s \<notin> dom distances"
    and "\<And>v d. distances v = Some d \<Longrightarrow> shortest_path_length adj s v d \<and> within_limit d H"
    and "\<And>e. e \<in> set queue \<Longrightarrow> recorded s distances (fst e) = Some (snd e)"
    and "sorted (map snd queue)"
    and "\<And>e. e \<in> set queue \<Longrightarrow> snd e \<le> snd (hd queue) + 1"
    and "\<And>x k. queue \<noteq> [] \<Longrightarrow> path_of_length adj s x k \<Longrightarrow> k \<le> snd (hd queue)
           \<Longrightarrow> within_limit k H \<Longrightarrow> x \<in> visited"
    and "\<And>v d. recorded s distances v = Some d \<Longrightarrow> (v, d) \<notin> set queue
           \<Longrightarrow> \<not> hop_limit_reached d H \<Longrightarrow> set (neighbors_of adj v) \<subseteq> visited"
  using assms unfolding bfs_inv_def by blast+

lemma bfs_inv_init: "bfs_inv adj s H [(s, 0)] {s} Map.empty"
  by (rule bfs_invI) (auto simp: recorded_def split: if_splits)

lemma recorded_le:
  assumes "\<And>v d. distances v = Some d \<Longrightarrow> shortest_path_length adj s v d \<and> within_limit d H"
    and "recorded s distances y = Some dy" and "path_of_length adj s y k"
  shows "dy \<le> k"
  using assms by (auto simp: recorded_def shortest_path_length_def split: if_splits)

lemma bfs_inv_skip:
  assumes inv: "bfs_inv adj s H ((i, dist) # queue) visited distances"
    and lim: "hop_limit_reached dist H"
  shows "bfs_inv adj s H queue visited distances"
proof (rule bfs_invI)
  note D = bfs_invD [OF inv]
  show "visited = insert s (dom distances)" by (rule D(1))
  show "s \<notin> dom distances" by (rule D(2))
  show "shortest_path_length adj s v d \<and> within_limit d H" if "distances v = Some d" for v d
    using that by (rule D(3))
  show "recorded s distances (fst e) = Some (snd e)" if "e \<in> set queue" for e
    using that D(4) [of e] by simp
  show "sorted (map snd queue)" using D(5) by simp
  show "snd e \<le> snd (hd queue) + 1" if "e \<in> set queue" for e
  proof -
    from that have "queue \<noteq> []" by auto
    then have "hd queue \<in> set queue" by simp
    then have "dist \<le> snd (hd queue)" using D(5) by auto
    moreover have "snd e \<le> dist + 1" using D(6) [of e] that by simp
    ultimately show ?thesis by simp
  qed
  show "x \<in> visited"
    if "queue \<noteq> []" "path_of_length adj s x k" "k \<le> snd (hd queue)" "within_limit k H" for x k
  proof -
    from lim that(4) have "k \<le> dist"
      by (auto simp: hop_limit_reached_def within_limit_def split: option.splits)
    then show ?thesis using D(7) [of x k] that by simp
  qed
  show "set (neighbors_of adj v) \<subseteq> visited"
    if "recorded s distances v = Some d" "(v, d) \<notin> set queue" "\<not> hop_limit_reached d H" for v d
  proof (cases "(v, d) = (i, dist)")
    case True with lim that show ?thesis by simp
  next
    case False with D(8) [of v d] that show ?thesis by simp
  qed
qed


lemma bfs_inv_expand:
  assumes inv: "bfs_inv adj s H ((i, dist) # queue) visited distances"
    and lim: "\<not> hop_limit_reached dist H"
    and st: "visit_neighbors (neighbors_of adj i) dist (queue, visited, distances)
               = (queue', visited', distances')"
  shows "bfs_inv adj s H queue' visited' distances'"
proof (rule bfs_invI)
  note D = bfs_invD [OF inv]
  let ?ns = "neighbors_of adj i"
  let ?new = "map (\<lambda>n. (n, dist + 1)) (fresh ?ns visited)"
  from st have q': "queue' = queue @ ?new"
    and v': "visited' = visited \<union> set ?ns"
    and d': "distances' = (\<lambda>v. if v \<in> set ?ns - visited then Some (dist + 1) else distances v)"
    by (simp_all add: visit_neighbors_closed)
  have new_set: "set ?new = (\<lambda>n. (n, dist + 1)) ` (set ?ns - visited)"
    by (simp add: set_fresh)
  have s_vis: "s \<in> visited" using D(1) by simp
  have rec_i: "recorded s distances i = Some dist" using D(4) [of "(i, dist)"] by simp
  have path_i: "path_of_length adj s i dist"
    using rec_i D(3) [of i dist]
    by (auto simp: recorded_def shortest_path_length_def split: if_splits)
  have lim_Suc: "within_limit (Suc dist) H" using lim by (simp add: not_reached_iff)
  have rec_vis: "v \<in> visited" if "recorded s distances v = Some d" for v d
    using that D(1) by (auto simp: recorded_def split: if_splits)
  have rec_keep: "recorded s distances' v = recorded s distances v" if "v \<in> visited" for v
    using that by (simp add: recorded_def d')
  have rec_new: "recorded s distances' v = Some (dist + 1)" if "v \<in> set ?ns - visited" for v
    using that s_vis by (auto simp: recorded_def d')
  have q_le: "snd e \<le> dist + 1" if "e \<in> set queue" for e
    using D(6) [of e] that by simp
  have q_ge: "dist \<le> snd e" if "e \<in> set queue" for e
    using D(5) that by auto
  have q'_cases: "e \<in> set queue \<or> snd e = dist + 1" if "e \<in> set queue'" for e
    using that unfolding q' new_set by auto
  have q'_le: "snd e \<le> dist + 1" if "e \<in> set queue'" for e
    using q'_cases [OF that] q_le [of e] by auto
  have q'_ge: "dist \<le> snd e" if "e \<in> set queue'" for e
    using q'_cases [OF that] q_ge [of e] by auto
  show "visited' = insert s (dom distances')"
    using D(1) by (auto simp: v' d' dom_def)
  show "s \<notin> dom distances'"
    using D(2) s_vis by (auto simp: d' dom_def)
  show "shortest_path_length adj s v d \<and> within_limit d H" if h: "distances' v = Some d" for v d
  proof (cases "v \<in> set ?ns - visited")
    case False
    with h have "distances v = Some d" by (auto simp: d' split: if_splits)
    then show ?thesis by (rule D(3))
  next
    case True
    with h have d: "d = dist + 1" by (simp add: d')
    have "path_of_length adj s v (Suc dist)"
      using path_i True by (auto simp: path_of_length_Suc)
    moreover have "Suc dist \<le> k" if p: "path_of_length adj s v k" for k
    proof (rule ccontr)
      assume "\<not> Suc dist \<le> k"
      then have k: "k \<le> dist" by simp
      have "within_limit k H" using lim_Suc k by (auto intro: within_limit_mono)
      then have "v \<in> visited" using D(7) [of v k] p k by simp
      with True show False by simp
    qed
    ultimately show ?thesis using d lim_Suc by (simp add: shortest_path_length_def)
  qed
  show "recorded s distances' (fst e) = Some (snd e)" if "e \<in> set queue'" for e
  proof (cases "e \<in> set queue")
    case True
    then have r: "recorded s distances (fst e) = Some (snd e)" using D(4) [of e] by simp
    then have "fst e \<in> visited" by (rule rec_vis)
    then show ?thesis using r by (simp add: rec_keep)
  next
    case False
    with that have "e \<in> set ?new" by (simp add: q')
    then obtain n where "n \<in> set ?ns - visited" and "e = (n, dist + 1)"
      unfolding new_set by blast
    then show ?thesis using rec_new [of n] by simp
  qed
  have "sorted (map (\<lambda>x. Suc dist) xs)" for xs :: "jsstring list"
    by (induction xs) auto
  then show "sorted (map snd queue')"
    using D(5) q_le by (auto simp: q' sorted_append comp_def)
  show "snd e \<le> snd (hd queue') + 1" if "e \<in> set queue'" for e
  proof -
    from that have ne: "queue' \<noteq> []" by auto
    have le: "snd e \<le> dist + 1" using that by (rule q'_le)
    have "hd queue' \<in> set queue'" using ne by simp
    then have "dist \<le> snd (hd queue')" by (rule q'_ge)
    with le show ?thesis by simp
  qed
  show "x \<in> visited'"
    if ne: "queue' \<noteq> []" and p: "path_of_length adj s x k" and k: "k \<le> snd (hd queue')"
      and w: "within_limit k H" for x k
  proof (cases "k \<le> dist")
    case True
    then have "x \<in> visited" using D(7) [of x k] p w by simp
    then show ?thesis by (simp add: v')
  next
    case False
    have "hd queue' \<in> set queue'" using ne by simp
    then have "snd (hd queue') \<le> dist + 1" by (rule q'_le)
    with False k have kd: "k = Suc dist" and hdq: "snd (hd queue') = Suc dist" by simp_all
    have all_next: "snd e = Suc dist" if "e \<in> set queue" for e
    proof -
      from that have "queue \<noteq> []" by auto
      then have "hd queue' = hd queue" by (simp add: q')
      with hdq have "snd (hd queue) = Suc dist" by simp
      moreover have "snd (hd queue) \<le> snd e"
        using D(5) that \<open>queue \<noteq> []\<close> by (cases queue) auto
      ultimately show ?thesis using q_le [OF that] by simp
    qed
    from p kd obtain y where py: "path_of_length adj s y dist" and yx: "x \<in> set (neighbors_of adj y)"
      by (auto simp: path_of_length_Suc)
    have "within_limit dist H" using lim_Suc by (auto intro: within_limit_mono)
    then have "y \<in> visited" using D(7) [of y dist] py by simp
    then have "\<exists>dy. recorded s distances y = Some dy"
      using D(1) by (cases "y = s") (auto simp: recorded_def)
    then obtain dy where ry: "recorded s distances y = Some dy" ..
    have dy: "dy \<le> dist" using recorded_le [OF D(3) ry py] by simp
    show ?thesis
    proof (cases "(y, dy) = (i, dist)")
      case True
      with yx show ?thesis by (simp add: v')
    next
      case False
      have "(y, dy) \<notin> set queue" using all_next [of "(y, dy)"] dy by auto
      with False have "(y, dy) \<notin> set ((i, dist) # queue)" by simp
      moreover have "\<not> hop_limit_reached dy H"
        using lim dy by (auto simp: hop_limit_reached_def split: option.splits)
      ultimately have "set (neighbors_of adj y) \<subseteq> visited" using D(8) [OF ry] by simp
      with yx show ?thesis by (auto simp: v')
    qed
  qed
  show "set (neighbors_of adj v) \<subseteq> visited'"
    if r: "recorded s distances' v = Some d" and nq: "(v, d) \<notin> set queue'"
      and nl: "\<not> hop_limit_reached d H" for v d
  proof (cases "v \<in> set ?ns - visited")
    case True
    then have "recorded s distances' v = Some (dist + 1)" by (rule rec_new)
    with r have "d = dist + 1" by simp
    with True have "(v, d) \<in> set ?new" unfolding new_set by blast
    with nq show ?thesis by (simp add: q')
  next
    case False
    have vs: "v \<in> visited"
    proof (cases "v = s")
      case True then show ?thesis using s_vis by simp
    next
      case vs: False
      with r have "distances' v = Some d" by (simp add: recorded_def)
      with False have "distances v = Some d" by (auto simp: d' split: if_splits)
      then show ?thesis using D(1) by auto
    qed
    then have r0: "recorded s distances v = Some d" using r by (simp add: rec_keep)
    show ?thesis
    proof (cases "(v, d) = (i, dist)")
      case True then show ?thesis by (auto simp: v')
    next
      case False
      with nq have "(v, d) \<notin> set ((i, dist) # queue)" by (simp add: q')
      then have "set (neighbors_of adj v) \<subseteq> visited" using D(8) [OF r0] nl by simp
      then show ?thesis by (auto simp: v')
    qed
  qed
qed

lemma bfs_loop_inv:
  "bfs_inv adj s H queue visited distances \<Longrightarrow>
     \<exists>visited'. bfs_inv adj s H [] visited' (bfs_loop adj H (queue, visited, distances))"
proof (induction adj H "(queue, visited, distances)" arbitrary: queue visited distances
         rule: bfs_loop.induct)
  case (1 adj maxHops visited distances)
  then show ?case by (auto simp: bfs_loop.simps)
next
  case (2 adj maxHops i dist queue visited distances)
  show ?case
  proof (cases "hop_limit_reached dist maxHops")
    case True
    from bfs_inv_skip [OF "2.prems" True] "2.hyps"(1) [OF True]
    show ?thesis using True by (simp add: bfs_loop.simps)
  next
    case False
    obtain queue' visited' distances' where
      st: "visit_neighbors (neighbors_of adj i) dist (queue, visited, distances)
             = (queue', visited', distances')"
      by (cases "visit_neighbors (neighbors_of adj i) dist (queue, visited, distances)") auto
    from "2.hyps"(2) [OF False st bfs_inv_expand [OF "2.prems" False st]]
    show ?thesis using False st by (simp add: bfs_loop.simps)
  qed
qed


lemma bfs_final_complete:
  assumes inv: "bfs_inv adj s H [] visited distances"
  shows "path_of_length adj s x k \<Longrightarrow> within_limit k H \<Longrightarrow> x \<in> visited"
proof (induction k arbitrary: x)
  case 0
  then show ?case using bfs_invD(1) [OF inv] by simp
next
  case (Suc k)
  note D = bfs_invD [OF inv]
  from Suc.prems(1) obtain y where py: "path_of_length adj s y k"
    and yx: "x \<in> set (neighbors_of adj y)"
    by (auto simp: path_of_length_Suc)
  have wk: "within_limit k H" using Suc.prems(2) by (auto intro: within_limit_mono)
  have "y \<in> visited" using Suc.IH [OF py wk] .
  then have "\<exists>dy. recorded s distances y = Some dy"
    using D(1) by (cases "y = s") (auto simp: recorded_def)
  then obtain dy where ry: "recorded s distances y = Some dy" ..
  have "dy \<le> k" using recorded_le [OF D(3) ry py] by simp
  then have "within_limit (Suc dy) H"
    using Suc.prems(2) by (auto intro: within_limit_mono)
  then have "\<not> hop_limit_reached dy H" by (simp add: not_reached_iff)
  then have "set (neighbors_of adj y) \<subseteq> visited" using D(8) [OF ry] by simp
  with yx show ?case by auto
qed

lemma bfs_loop_correct:
  "bfs_loop adj H ([(s, 0)], {s}, Map.empty) v = Some d
     \<longleftrightarrow> v \<noteq> s \<and> shortest_path_length adj s v d \<and> within_limit d H"
proof -
  let ?R = "bfs_loop adj H ([(s, 0)], {s}, Map.empty)"
  from bfs_loop_inv [OF bfs_inv_init]
  obtain visited where inv: "bfs_inv adj s H [] visited ?R" by blast
  note D = bfs_invD [OF inv]
  show ?thesis
  proof
    assume h: "?R v = Some d"
    then have "v \<noteq> s" using D(2) by auto
    with D(3) [OF h] show "v \<noteq> s \<and> shortest_path_length adj s v d \<and> within_limit d H"
      by simp
  next
    assume h: "v \<noteq> s \<and> shortest_path_length adj s v d \<and> within_limit d H"
    then have "path_of_length adj s v d" by (simp add: shortest_path_length_def)
    then have "v \<in> visited" using bfs_final_complete [OF inv] h by blast
    with h D(1) obtain d' where r: "?R v = Some d'" by auto
    from D(3) [OF r] h have "d' = d" by (auto intro: shortest_unique)
    with r show "?R v = Some d" by simp
  qed
qed


subsection \<open>Properties of the reachability search\<close>

lemma path_has_shortest:
  assumes "path_of_length adj s v k"
  shows "\<exists>d\<le>k. shortest_path_length adj s v d"
proof -
  let ?d = "LEAST j. path_of_length adj s v j"
  have "path_of_length adj s v ?d" using assms by (rule LeastI)
  moreover have "?d \<le> j" if "path_of_length adj s v j" for j using that by (rule Least_le)
  ultimately have "shortest_path_length adj s v ?d" by (simp add: shortest_path_length_def)
  moreover have "?d \<le> k" using assms by (rule Least_le)
  ultimately show ?thesis by blast
qed

lemma computeReachability_correct:
  "computeReachability s adj H v = Some d
     \<longleftrightarrow> v \<noteq> s \<and> shortest_path_length adj s v d \<and> d \<le> H"
  unfolding computeReachability_def bfs_loop_correct by (simp add: within_limit_def)

text \<open>The scenario graph with the edges A \<open>\<rightarrow>\<close> B and B \<open>\<rightarrow>\<close> C.\<close>

definition graph_ABC :: adjacency where
  "graph_ABC = [(ascii ''A'', [ascii ''B'']), (ascii ''B'', [ascii ''C''])]"

text \<open>
  Claim C10. For every adjacency and start node, the result of the reachability search
  (forward, reverse, and the variant without a hop limit) has no entry for the start
  node itself: it is marked visited before the loop, and only nodes not yet visited
  ever get a distance.
\<close>

theorem start_node_never_recorded:
  "computeReachability startId outgoing maxHops startId = None \<and>
   computeReverseReachability startId incoming maxHops startId = None \<and>
   computeReachabilityInfinite startId adjacency startId = None"
proof -
  have "bfs_loop adj H ([(s, 0)], {s}, Map.empty) s = None" for adj H s
  proof (cases "bfs_loop adj H ([(s, 0)], {s}, Map.empty) s")
    case None then show ?thesis .
  next
    case (Some d)
    with bfs_loop_correct [of adj H s s d] show ?thesis by blast
  qed
  then show ?thesis
    by (simp add: computeReachability_def computeReverseReachability_def
        computeReachabilityInfinite_def)
qed

text \<open>
  Claim C3. Every node recorded by \<^verbatim>\<open>computeReachability\<close> is recorded at the length
  of the shortest directed path from the source. The recorded hop counts satisfy the
  triangle inequality: when \<open>b\<close> is recorded at hop \<open>h\<close> and \<open>c\<close> is a direct successor
  of \<open>b\<close>, a hop count recorded for \<open>c\<close> is at most \<open>h + 1\<close>; and unless \<open>c\<close> is the
  source (which has no entry) or \<open>b\<close> sits at the hop limit (where the search stops
  expanding), \<open>c\<close> does have a recorded hop count.
\<close>

theorem bfs_hops_shortest_triangle:
  assumes "computeReachability startId outgoing maxHops b = Some h"
  shows "shortest_path_length outgoing startId b h \<and>
    (\<forall>c h'. c \<in> set (neighbors_of outgoing b) \<and>
        computeReachability startId outgoing maxHops c = Some h' \<longrightarrow> h' \<le> h + 1) \<and>
    (\<forall>c. c \<in> set (neighbors_of outgoing b) \<and> c \<noteq> startId \<and> h < maxHops \<longrightarrow>
        (\<exists>h'. computeReachability startId outgoing maxHops c = Some h' \<and> h' \<le> h + 1))"
proof -
  from assms have sp: "shortest_path_length outgoing startId b h"
    by (simp add: computeReachability_correct)
  then have pb: "path_of_length outgoing startId b h" by (simp add: shortest_path_length_def)
  have pc: "path_of_length outgoing startId c (Suc h)" if "c \<in> set (neighbors_of outgoing b)" for c
    using pb that by (auto simp: path_of_length_Suc)
  have tri: "h' \<le> h + 1"
    if "c \<in> set (neighbors_of outgoing b)" "computeReachability startId outgoing maxHops c = Some h'"
    for c h'
    using pc [OF that(1)] that(2)
    by (simp add: computeReachability_correct shortest_path_length_def)
  have ex: "\<exists>h'. computeReachability startId outgoing maxHops c = Some h' \<and> h' \<le> h + 1"
    if "c \<in> set (neighbors_of outgoing b)" "c \<noteq> startId" "h < maxHops" for c
  proof -
    from path_has_shortest [OF pc [OF that(1)]]
    obtain d where "d \<le> Suc h" and "shortest_path_length outgoing startId c d" by blast
    with that(2,3) have "computeReachability startId outgoing maxHops c = Some d"
      by (simp add: computeReachability_correct)
    with \<open>d \<le> Suc h\<close> show ?thesis by simp
  qed
  from sp tri ex show ?thesis by blast
qed

lemma graph_ABC_from_A:
  "computeReachability (ascii ''A'') graph_ABC 50 (ascii ''B'') = Some 1"
  "computeReachability (ascii ''A'') graph_ABC 50 (ascii ''C'') = Some 2"
  "ascii ''C'' \<in> set (neighbors_of graph_ABC (ascii ''B''))"
  by (simp_all add: computeReachability_def graph_ABC_def ascii_def neighbors_of_def
      hop_limit_reached_def bfs_loop.simps)

theorem bfs_hops_shortest_triangle_witness:
  "computeReachability (ascii ''A'') graph_ABC 50 (ascii ''B'') = Some 1 \<and>
   shortest_path_length graph_ABC (ascii ''A'') (ascii ''B'') 1 \<and>
   ascii ''C'' \<in> set (neighbors_of graph_ABC (ascii ''B'')) \<and>
   computeReachability (ascii ''A'') graph_ABC 50 (ascii ''C'') = Some 2 \<and>
   (2::nat) \<le> 1 + 1 \<and>
   (\<exists>h'. computeReachability (ascii ''A'') graph_ABC 50 (ascii ''C'') = Some h' \<and> h' \<le> 1 + 1)"
  using bfs_hops_shortest_triangle [OF graph_ABC_from_A(1)] graph_ABC_from_A by simp

text \<open>
  Claim C5. For hop caps \<open>H < H'\<close>, the nodes recorded under cap \<open>H\<close> are among the
  nodes recorded under cap \<open>H'\<close>, and on every node recorded under \<open>H\<close> the two hop
  counts are equal.
\<close>

theorem reachability_monotone_in_hop_cap:
  assumes "H < H'"
  shows "dom (computeReachability startId outgoing H) \<subseteq> dom (computeReachability startId outgoing H')
    \<and> (\<forall>v \<in> dom (computeReachability startId outgoing H).
          computeReachability startId outgoing H' v = computeReachability startId outgoing H v)"
proof -
  have "computeReachability startId outgoing H' v = Some d"
    if "computeReachability startId outgoing H v = Some d" for v d
    using that assms by (simp add: computeReachability_correct)
  then show ?thesis by (auto simp: dom_def)
qed

theorem reachability_monotone_in_hop_cap_witness:
  "(1::nat) < 2 \<and>
   dom (computeReachability (ascii ''A'') graph_ABC 1) \<subseteq> dom (computeReachability (ascii ''A'') graph_ABC 2)
    \<and> ascii ''B'' \<in> dom (computeReachability (ascii ''A'') graph_ABC 1)
    \<and> computeReachability (ascii ''A'') graph_ABC 2 (ascii ''B'')
        = computeReachability (ascii ''A'') graph_ABC 1 (ascii ''B'')
    \<and> computeReachability (ascii ''A'') graph_ABC 1 (ascii ''B'') = Some 1
    \<and> computeReachability (ascii ''A'') graph_ABC 1 (ascii ''C'') = None
    \<and> computeReachability (ascii ''A'') graph_ABC 2 (ascii ''C'') = Some 2"
proof -
  have h: "(1::nat) < 2" by simp
  have e1: "computeReachability (ascii ''A'') graph_ABC 1 (ascii ''B'') = Some 1"
    and e2: "computeReachability (ascii ''A'') graph_ABC 1 (ascii ''C'') = None"
    and e3: "computeReachability (ascii ''A'') graph_ABC 2 (ascii ''C'') = Some 2"
    by (simp_all add: computeReachability_def graph_ABC_def ascii_def neighbors_of_def
      hop_limit_reached_def bfs_loop.simps)
  from e1 have d: "ascii ''B'' \<in> dom (computeReachability (ascii ''A'') graph_ABC 1)"
    by blast
  show ?thesis
    using reachability_monotone_in_hop_cap [OF h, of "ascii ''A''" graph_ABC] h e1 e2 e3 d
    by blast
qed

section \<open>Shortest citation paths\<close>

text \<open>
  \<^verbatim>\<open>findShortestPath\<close> of \<^verbatim>\<open>build_full_graph.ts\<close> (and the identical \<^verbatim>\<open>findPath\<close> inside
  \<^verbatim>\<open>computeImportantPaths\<close> of \<^verbatim>\<open>build_graph_multi.ts\<close>): a breadth-first search whose
  queue entries \<^verbatim>\<open>{id, path}\<close> carry the path so far. \<^verbatim>\<open>null\<close> is \<open>None\<close>.
\<close>

type_synonym path_state = "(jsstring \<times> jsstring list) list \<times> jsstring set"

text \<open>
  The inner loop over the neighbours: it returns from the whole function
  (\<open>Inl\<close>) as soon as a neighbour is the target, and otherwise enqueues the neighbours
  not yet visited (\<open>Inr\<close> the new queue and visited set).
\<close>

fun scan_neighbors ::
  "jsstring \<Rightarrow> jsstring list \<Rightarrow> jsstring list \<Rightarrow> path_state \<Rightarrow> jsstring list + path_state" where
  "scan_neighbors toId path [] st = Inr st"
| "scan_neighbors toId path (n # ns) (queue, visited) =
     (if n = toId then Inl (path @ [n])
      else if n \<notin> visited
      then scan_neighbors toId path ns (queue @ [(n, path @ [n])], insert n visited)
      else scan_neighbors toId path ns (queue, visited))"

lemma scan_neighbors_measure:
  assumes "scan_neighbors toId path ns (queue, visited) = Inr (queue', visited')"
    and "set ns \<subseteq> U" and "finite U"
  shows "2 * card (U - visited') + length queue' \<le> 2 * card (U - visited) + length queue"
  using assms
proof (induction ns arbitrary: queue visited)
  case Nil
  then show ?case by simp
next
  case (Cons n ns)
  show ?case
  proof (cases "n \<in> visited")
    case True
    with Cons.prems have "scan_neighbors toId path ns (queue, visited) = Inr (queue', visited')"
      by (simp split: if_splits)
    from Cons.IH [OF this] Cons.prems show ?thesis by simp
  next
    case False
    with Cons.prems have
      "scan_neighbors toId path ns (queue @ [(n, path @ [n])], insert n visited)
         = Inr (queue', visited')"
      by (simp split: if_splits)
    from Cons.IH [OF this] Cons.prems
    have le: "2 * card (U - visited') + length queue'
          \<le> 2 * card (U - insert n visited) + length (queue @ [(n, path @ [n])])"
      by simp
    have "n \<in> U - visited" using False Cons.prems by simp
    then have "card (U - insert n visited) < card (U - visited)"
      using Cons.prems(3)
      by (metis Diff_insert card_Diff1_less finite_Diff)
    with le show ?thesis by simp
  qed
qed

function path_loop :: "adjacency \<Rightarrow> jsstring \<Rightarrow> path_state \<Rightarrow> jsstring list option" where
  "path_loop outgoing toId ([], visited) = None"
| "path_loop outgoing toId ((i, path) # queue, visited) =
     (case scan_neighbors toId path (neighbors_of outgoing i) (queue, visited) of
        Inl found \<Rightarrow> Some found
      | Inr st \<Rightarrow> path_loop outgoing toId st)"
  by pat_completeness auto
termination
proof (relation "measure (\<lambda>(outgoing, toId, queue, visited).
                   2 * card (nodes_of outgoing - visited) + length queue)", goal_cases)
  case 1
  show ?case by simp
next
  case (2 outgoing toId i path queue visited st)
  obtain queue' visited' where st: "st = (queue', visited')" by (cases st)
  from 2 st have "scan_neighbors toId path (neighbors_of outgoing i) (queue, visited)
      = Inr (queue', visited')" by simp
  from scan_neighbors_measure [OF this neighbors_of_nodes finite_nodes_of]
  show ?case by (simp add: st)
qed

declare path_loop.simps [simp del]

definition findShortestPath :: "jsstring \<Rightarrow> jsstring \<Rightarrow> adjacency \<Rightarrow> jsstring list option" where
  "findShortestPath fromId toId outgoing =
     (if fromId = toId then Some [fromId]
      else path_loop outgoing toId ([(fromId, [fromId])], {fromId}))"

lemma scan_neighbors_found:
  "scan_neighbors toId path ns st = Inl found \<Longrightarrow> toId \<in> set ns"
  by (induction toId path ns st rule: scan_neighbors.induct) (auto split: if_splits)

lemma scan_neighbors_queue:
  "scan_neighbors toId path ns (queue, visited) = Inr (queue', visited') \<Longrightarrow>
     fst ` set queue' \<subseteq> fst ` set queue \<union> set ns"
  by (induction toId path ns "(queue, visited)" arbitrary: queue visited
      rule: scan_neighbors.induct) (auto split: if_splits)

lemma path_of_length_step:
  "j \<in> set (neighbors_of adj i) \<Longrightarrow> path_of_length adj j t k \<Longrightarrow> path_of_length adj i t (Suc k)"
proof -
  assume "j \<in> set (neighbors_of adj i)" and "path_of_length adj j t k"
  then have "(i, j) \<in> edges adj" and "(j, t) \<in> edges adj ^^ k"
    by (simp_all add: edges_def path_of_length_def)
  then have "(i, t) \<in> edges adj ^^ Suc k" by (rule relpow_Suc_I2)
  then show ?thesis by (simp only: path_of_length_def)
qed

lemma path_loop_reaches:
  "path_loop outgoing toId (queue, visited) = Some found \<Longrightarrow>
     \<exists>i \<in> fst ` set queue. \<exists>k. path_of_length outgoing i toId k"
proof (induction outgoing toId "(queue, visited)" arbitrary: queue visited
         rule: path_loop.induct)
  case (1 outgoing toId visited)
  then show ?case by (simp add: path_loop.simps)
next
  case (2 outgoing toId i path queue visited)
  show ?case
  proof (cases "scan_neighbors toId path (neighbors_of outgoing i) (queue, visited)")
    case (Inl r)
    then have "toId \<in> set (neighbors_of outgoing i)" by (rule scan_neighbors_found)
    then have "path_of_length outgoing i toId (Suc 0)"
      by (rule path_of_length_step) simp
    then show ?thesis by auto
  next
    case (Inr st)
    obtain queue' visited' where st: "st = (queue', visited')" by (cases st)
    from "2.prems" Inr st have "path_loop outgoing toId (queue', visited') = Some found"
      by (simp add: path_loop.simps)
    from "2.hyps" [OF Inr [unfolded st] this]
    obtain j k where j: "j \<in> fst ` set queue'" and p: "path_of_length outgoing j toId k"
      by blast
    from scan_neighbors_queue [OF Inr [unfolded st]] j
    have "j \<in> fst ` set queue \<or> j \<in> set (neighbors_of outgoing i)" by auto
    then show ?thesis
    proof
      assume "j \<in> fst ` set queue"
      with p show ?thesis by auto
    next
      assume "j \<in> set (neighbors_of outgoing i)"
      from path_of_length_step [OF this p] show ?thesis by auto
    qed
  qed
qed

text \<open>
  Claim C9. The path finder returns the one-element path \<open>[from]\<close> when source and target
  coincide; on the graph with the edges A \<open>\<rightarrow>\<close> B and B \<open>\<rightarrow>\<close> C it returns \<open>[A, B, C]\<close>
  (two hops) for the pair (A, C) and \<^verbatim>\<open>null\<close> for (C, A); and it returns \<^verbatim>\<open>null\<close> for
  every pair with no directed path from the source to the target.
\<close>

theorem findShortestPath_scenarios:
  "findShortestPath fromId fromId outgoing = Some [fromId] \<and>
   findShortestPath (ascii ''A'') (ascii ''C'') graph_ABC
     = Some [ascii ''A'', ascii ''B'', ascii ''C''] \<and>
   length [ascii ''A'', ascii ''B'', ascii ''C''] - 1 = 2 \<and>
   findShortestPath (ascii ''C'') (ascii ''A'') graph_ABC = None \<and>
   ((\<forall>k. \<not> path_of_length outgoing fromId toId k) \<longrightarrow>
      findShortestPath fromId toId outgoing = None)"
proof -
  have a: "findShortestPath fromId fromId outgoing = Some [fromId]"
    by (simp add: findShortestPath_def)
  have b: "findShortestPath (ascii ''A'') (ascii ''C'') graph_ABC
     = Some [ascii ''A'', ascii ''B'', ascii ''C'']"
    by (simp add: findShortestPath_def graph_ABC_def ascii_def neighbors_of_def path_loop.simps)
  have c: "findShortestPath (ascii ''C'') (ascii ''A'') graph_ABC = None"
    by (simp add: findShortestPath_def graph_ABC_def ascii_def neighbors_of_def path_loop.simps)
  have d: "findShortestPath fromId toId outgoing = None"
    if no: "\<forall>k. \<not> path_of_length outgoing fromId toId k"
  proof (cases "findShortestPath fromId toId outgoing")
    case None then show ?thesis .
  next
    case (Some found)
    from no have "\<not> path_of_length outgoing fromId toId 0" by blast
    then have "fromId \<noteq> toId" by auto
    with Some have "path_loop outgoing toId ([(fromId, [fromId])], {fromId}) = Some found"
      by (simp add: findShortestPath_def)
    from path_loop_reaches [OF this] no show ?thesis by simp
  qed
  from a b c d show ?thesis by simp
qed

lemma no_path_from_C: "path_of_length graph_ABC (ascii ''C'') v k \<Longrightarrow> v = ascii ''C''"
proof (induction k arbitrary: v)
  case 0 then show ?case by simp
next
  case (Suc k)
  then obtain u where "path_of_length graph_ABC (ascii ''C'') u k"
    and "v \<in> set (neighbors_of graph_ABC u)" by (auto simp: path_of_length_Suc)
  with Suc.IH have "v \<in> set (neighbors_of graph_ABC (ascii ''C''))" by blast
  then show ?case by (simp add: graph_ABC_def ascii_def neighbors_of_def)
qed

theorem findShortestPath_scenarios_witness:
  "(\<forall>k. \<not> path_of_length graph_ABC (ascii ''C'') (ascii ''A'') k) \<and>
   findShortestPath (ascii ''C'') (ascii ''A'') graph_ABC = None"
proof -
  have "\<not> path_of_length graph_ABC (ascii ''C'') (ascii ''A'') k" for k
    using no_path_from_C [of "ascii ''A''" k] by (auto simp: ascii_def)
  then have h: "\<forall>k. \<not> path_of_length graph_ABC (ascii ''C'') (ascii ''A'') k" by blast
  with findShortestPath_scenarios [of "ascii ''C''" graph_ABC "ascii ''A''"] show ?thesis
    by blast
qed



section \<open>The two reachability modes\<close>

text \<open>
  Landmark mode is the main loop of \<^verbatim>\<open>build_full_graph.ts\<close>: the active nodes are sorted
  by descending \<^verbatim>\<open>in_degree\<close> (a stable sort), the first 100 are kept, and for each of
  them \<^verbatim>\<open>computeReachability(law.id, outgoing, 50)\<close> and
  \<^verbatim>\<open>computeReverseReachability(law.id, incoming, outgoing, 50)\<close> are stored.

  Exhaustive mode is \<^verbatim>\<open>build_graph_multi.ts\<close>: it cuts the active nodes into chunks and
  sends each chunk to a \<^verbatim>\<open>graph_worker.js\<close> process with the message
  \<^verbatim>\<open>{laws: chunk, outgoingObj, incomingObj, workerId}\<close>, which carries no hop limit. The
  worker stores, for every law of its chunk,
  \<^verbatim>\<open>computeReachabilityInfinite(law.id, outgoingObj)\<close> and
  \<^verbatim>\<open>computeReachabilityInfinite(law.id, incomingObj)\<close>; the chunk results are merged
  with \<^verbatim>\<open>Object.assign\<close>. (The worker also stores the maxima of the two maps, which no
  property below reads.) The result object is the list of its \<open>(law id, entry)\<close> pairs in
  the order they are written.
\<close>

record graph_node =
  node_id :: jsstring
  node_title :: jsstring
  node_category :: jsstring
  out_degree :: nat
  in_degree :: nat

record reachability_entry =
  entry_title :: jsstring
  reachable_from :: "jsstring \<rightharpoonup> nat"
  reachable_to :: "jsstring \<rightharpoonup> nat"

definition importantLaws :: "graph_node list \<Rightarrow> graph_node list" where
  "importantLaws activeNodes = take 100 (sort_key (\<lambda>n. - int (in_degree n)) activeNodes)"

definition landmark_reachability ::
  "graph_node list \<Rightarrow> adjacency \<Rightarrow> adjacency \<Rightarrow> (jsstring \<times> reachability_entry) list" where
  "landmark_reachability activeNodes outgoing incoming =
     map (\<lambda>law. (node_id law,
            \<lparr>entry_title = node_title law,
             reachable_from = computeReachability (node_id law) outgoing 50,
             reachable_to = computeReverseReachability (node_id law) incoming 50\<rparr>))
         (importantLaws activeNodes)"

definition graph_worker_js ::
  "graph_node list \<Rightarrow> adjacency \<Rightarrow> adjacency \<Rightarrow> (jsstring \<times> reachability_entry) list" where
  "graph_worker_js laws outgoingObj incomingObj =
     map (\<lambda>law. (node_id law,
            \<lparr>entry_title = node_title law,
             reachable_from = computeReachabilityInfinite (node_id law) outgoingObj,
             reachable_to = computeReachabilityInfinite (node_id law) incomingObj\<rparr>))
         laws"

definition exhaustive_reachability ::
  "graph_node list list \<Rightarrow> adjacency \<Rightarrow> adjacency \<Rightarrow> (jsstring \<times> reachability_entry) list" where
  "exhaustive_reachability chunks outgoingObj incomingObj =
     concat (map (\<lambda>chunk. graph_worker_js chunk outgoingObj incomingObj) chunks)"

text \<open>
  A chain of 52 laws, each citing the next: the identifiers are the one-letter strings
  with the code units 65, 66, ..., 116.
\<close>

definition chain_id :: "nat \<Rightarrow> jsstring" where
  "chain_id k = [65 + k]"

definition chain_outgoing :: adjacency where
  "chain_outgoing = map (\<lambda>k. (chain_id k, [chain_id (Suc k)])) [0..<51]"

definition chain_incoming :: adjacency where
  "chain_incoming = map (\<lambda>k. (chain_id (Suc k), [chain_id k])) [0..<51]"

definition chain_node :: "nat \<Rightarrow> graph_node" where
  "chain_node k = \<lparr>node_id = chain_id k, node_title = chain_id k, node_category = ascii ''Act'',
     out_degree = (if k < 51 then 1 else 0), in_degree = (if 0 < k then 1 else 0)\<rparr>"

definition chain_nodes :: "graph_node list" where
  "chain_nodes = map chain_node [0..<52]"

lemma exhaustive_reachability_first:
  "hd (exhaustive_reachability ((law # laws) # chunks) outgoingObj incomingObj) =
     (node_id law,
      \<lparr>entry_title = node_title law,
       reachable_from = computeReachabilityInfinite (node_id law) outgoingObj,
       reachable_to = computeReachabilityInfinite (node_id law) incomingObj\<rparr>)"
  by (simp add: exhaustive_reachability_def graph_worker_js_def)

text \<open>
  Claim C4 says that in both modes no node is recorded at a hop count above the cap
  (default 50). In exhaustive mode the search has no cap: on the chain, with all 52 laws
  in the chunk of one worker, the last law is recorded at hop 51 from the first.
\<close>

theorem exhaustive_mode_uncapped_counterexample:
  "reachable_from
     (snd (hd (exhaustive_reachability [chain_nodes] chain_outgoing chain_incoming)))
     (chain_id 51) = Some 51 \<and> \<not> (51::nat) \<le> 50"
proof -
  have e: "computeReachabilityInfinite (chain_id 0) chain_outgoing (chain_id 51) = Some 51"
    by (simp add: computeReachabilityInfinite_def chain_outgoing_def chain_id_def
        neighbors_of_def hop_limit_reached_def bfs_loop.simps upt_rec)
  have c: "chain_nodes = chain_node 0 # map chain_node [Suc 0..<52]"
    unfolding chain_nodes_def by (subst upt_conv_Cons) simp_all
  have "hd (exhaustive_reachability [chain_nodes] chain_outgoing chain_incoming) =
     (node_id (chain_node 0),
      \<lparr>entry_title = node_title (chain_node 0),
       reachable_from = computeReachabilityInfinite (node_id (chain_node 0)) chain_outgoing,
       reachable_to = computeReachabilityInfinite (node_id (chain_node 0)) chain_incoming\<rparr>)"
    by (subst c) (rule exhaustive_reachability_first)
  with e show ?thesis by (simp add: chain_node_def)
qed

lemma bfs_loop_within_limit:
  "bfs_loop adj (Some H) ([(s, 0)], {s}, Map.empty) v = Some h \<Longrightarrow> h \<le> H"
  by (simp add: bfs_loop_correct within_limit_def)

text \<open>
  Claim C4, amended. A forward or reverse search that is given a hop limit records no
  node at a hop count above it; in landmark mode, where the limit passed is 50, every
  hop count stored for a landmark law is at most 50. In exhaustive mode the search has
  no hop limit: it records every node other than the start that the start reaches, at
  its shortest distance.
\<close>

theorem hop_cap_by_mode:
  "(\<forall>v h. computeReachability startId outgoing maxHops v = Some h \<longrightarrow> h \<le> maxHops) \<and>
   (\<forall>v h. computeReverseReachability startId incoming maxHops v = Some h \<longrightarrow> h \<le> maxHops) \<and>
   (\<forall>e \<in> set (landmark_reachability activeNodes outgoing incoming).
      \<forall>v h. reachable_from (snd e) v = Some h \<or> reachable_to (snd e) v = Some h \<longrightarrow> h \<le> 50) \<and>
   (\<forall>v d. computeReachabilityInfinite startId adjacency v = Some d
      \<longleftrightarrow> v \<noteq> startId \<and> shortest_path_length adjacency startId v d)"
proof -
  have a: "h \<le> H" if "computeReachability s adj H v = Some h" for s adj H v h
    using that unfolding computeReachability_def by (rule bfs_loop_within_limit)
  have b: "h \<le> H" if "computeReverseReachability s adj H v = Some h" for s adj H v h
    using that unfolding computeReverseReachability_def by (rule bfs_loop_within_limit)
  have c: "h \<le> 50"
    if "e \<in> set (landmark_reachability activeNodes outgoing incoming)"
      and "reachable_from (snd e) v = Some h \<or> reachable_to (snd e) v = Some h" for e v h
    using that a b by (auto simp: landmark_reachability_def)
  have d: "computeReachabilityInfinite startId adjacency v = Some d
      \<longleftrightarrow> v \<noteq> startId \<and> shortest_path_length adjacency startId v d" for v d
    unfolding computeReachabilityInfinite_def bfs_loop_correct by (simp add: within_limit_def)
  from a b c d show ?thesis by blast
qed

definition node_A :: graph_node where
  "node_A = \<lparr>node_id = ascii ''A'', node_title = ascii ''A'', node_category = ascii ''Act'',
     out_degree = 1, in_degree = 0\<rparr>"

theorem hop_cap_by_mode_witness:
  "computeReachability (ascii ''A'') graph_ABC 2 (ascii ''C'') = Some 2 \<and> (2::nat) \<le> 2 \<and>
   computeReachabilityInfinite (ascii ''A'') graph_ABC (ascii ''C'') = Some 2 \<and>
   shortest_path_length graph_ABC (ascii ''A'') (ascii ''C'') 2 \<and>
   reachable_from (snd (hd (landmark_reachability [node_A] graph_ABC []))) (ascii ''C'') = Some 2 \<and>
   (2::nat) \<le> 50"
proof -
  have e1: "computeReachability (ascii ''A'') graph_ABC 2 (ascii ''C'') = Some 2"
    and e2: "computeReachabilityInfinite (ascii ''A'') graph_ABC (ascii ''C'') = Some 2"
    and e3: "computeReachability (ascii ''A'') graph_ABC 50 (ascii ''C'') = Some 2"
    by (simp_all add: computeReachability_def computeReachabilityInfinite_def graph_ABC_def
        ascii_def neighbors_of_def hop_limit_reached_def bfs_loop.simps)
  have e4: "reachable_from (snd (hd (landmark_reachability [node_A] graph_ABC []))) (ascii ''C'')
      = Some 2"
    using e3 by (simp add: landmark_reachability_def importantLaws_def node_A_def)
  from hop_cap_by_mode [where startId = "ascii ''A''" and outgoing = graph_ABC and maxHops = 2
      and incoming = "[]" and activeNodes = "[node_A]" and adjacency = graph_ABC]
    e1 e2 e4
  show ?thesis by simp
qed

section \<open>Laws and references\<close>

text \<open>
  The records of the scripts: \<^verbatim>\<open>LawIndex\<close> (\<^verbatim>\<open>{id, lawNum, title, category}\<close>, the
  field \<^verbatim>\<open>id\<close> written \<open>id'\<close>) and \<^verbatim>\<open>Reference\<close> (the field \<^verbatim>\<open>paragraph\<close> written
  \<open>paragraph'\<close>). A \<^verbatim>\<open>string | null\<close> field is an option; so is \<^verbatim>\<open>lawNum\<close>, which a
  registry entry may lack (\<^verbatim>\<open>undefined\<close>). \<^verbatim>\<open>ref_type\<close> takes the five values the
  extractor writes.
\<close>

datatype ref_type = law_name | article_ref | law_num_ref | unknown_law | amendment_ref

record law_index =
  id' :: jsstring
  lawNum :: "jsstring option"
  title :: jsstring
  category :: jsstring

record reference =
  from_law_id :: jsstring
  from_law_title :: jsstring
  to_law_id :: "jsstring option"
  to_law_title :: jsstring
  to_law_num :: "jsstring option"
  article :: "jsstring option"
  paragraph' :: "jsstring option"
  item :: "jsstring option"
  ref_type :: ref_type


section \<open>Global deduplication\<close>

text \<open>
  \<^verbatim>\<open>dedupeReferences\<close> of \<^verbatim>\<open>analyze_references_multi.ts\<close>. The key is the template string
  \<^verbatim>\<open>`${ref.from_law_id}:${ref.to_law_id || ref.to_law_title}:${ref.article || ""}`\<close>;
  the filter keeps a reference when its key is not yet in \<^verbatim>\<open>seen\<close>.
\<close>

definition dedup_key :: "reference \<Rightarrow> jsstring" where
  "dedup_key ref =
     from_law_id ref @ ascii '':'' @
     (case to_law_id ref of
        Some t \<Rightarrow> if truthy t then t else to_law_title ref
      | None \<Rightarrow> to_law_title ref) @ ascii '':'' @
     (case article ref of Some a \<Rightarrow> if truthy a then a else [] | None \<Rightarrow> [])"

fun dedupe_filter :: "jsstring set \<Rightarrow> reference list \<Rightarrow> reference list" where
  "dedupe_filter seen [] = []"
| "dedupe_filter seen (ref # refs) =
     (if dedup_key ref \<in> seen then dedupe_filter seen refs
      else ref # dedupe_filter (insert (dedup_key ref) seen) refs)"

definition dedupeReferences :: "reference list \<Rightarrow> reference list" where
  "dedupeReferences refs = dedupe_filter {} refs"

lemma dedupe_filter_keys:
  "dedup_key ` set (dedupe_filter seen refs) = dedup_key ` set refs - seen"
  by (induction refs arbitrary: seen) auto

lemma dedupe_filter_distinct: "distinct (map dedup_key (dedupe_filter seen refs))"
proof (induction refs arbitrary: seen)
  case Nil
  show ?case by simp
next
  case (Cons r refs)
  have "dedup_key r \<notin> dedup_key ` set (dedupe_filter (insert (dedup_key r) seen) refs)"
    by (simp add: dedupe_filter_keys)
  with Cons show ?case by simp
qed

lemma dedupe_filter_fixed:
  "distinct (map dedup_key refs) \<Longrightarrow> dedup_key ` set refs \<inter> seen = {} \<Longrightarrow>
     dedupe_filter seen refs = refs"
  by (induction refs arbitrary: seen) auto

lemma dedupe_filter_find:
  "k \<notin> seen \<Longrightarrow>
     find (\<lambda>x. dedup_key x = k) (dedupe_filter seen refs) = find (\<lambda>x. dedup_key x = k) refs"
proof (induction refs arbitrary: seen)
  case Nil
  show ?case by simp
next
  case (Cons r refs)
  show ?case
  proof (cases "dedup_key r = k")
    case True
    with Cons.prems show ?thesis by simp
  next
    case False
    with Cons.prems Cons.IH [of seen] Cons.IH [of "insert (dedup_key r) seen"]
    show ?thesis by auto
  qed
qed

lemma dedupe_filter_subseq: "subseq (dedupe_filter seen refs) refs"
  by (induction refs arbitrary: seen) auto

lemma split_at_separator:
  "c \<notin> set a \<Longrightarrow> c \<notin> set b \<Longrightarrow> a @ c # x = b @ c # y \<Longrightarrow> a = b \<and> x = y"
proof (induction a arbitrary: b)
  case Nil
  then show ?case by (cases b) auto
next
  case (Cons h a)
  then show ?case by (cases b) auto
qed

lemma joined_parts_equal:
  fixes f :: jsstring
  assumes "58 \<notin> set f" "58 \<notin> set t" "58 \<notin> set f'" "58 \<notin> set t'"
  shows "f @ [58] @ t @ [58] @ a = f' @ [58] @ t' @ [58] @ a' \<longleftrightarrow> f = f' \<and> t = t' \<and> a = a'"
proof
  assume "f @ [58] @ t @ [58] @ a = f' @ [58] @ t' @ [58] @ a'"
  then have e: "f @ 58 # (t @ 58 # a) = f' @ 58 # (t' @ 58 # a')" by simp
  from split_at_separator [OF assms(1,3) e]
  have "f = f'" and g: "t @ 58 # a = t' @ 58 # a'" by simp_all
  with split_at_separator [OF assms(2,4) g] show "f = f' \<and> t = t' \<and> a = a'" by simp
next
  assume "f = f' \<and> t = t' \<and> a = a'"
  then show "f @ [58] @ t @ [58] @ a = f' @ [58] @ t' @ [58] @ a'" by simp
qed

lemma dedup_key_fields:
  "dedup_key r =
     from_law_id r @ [58] @
     (case to_law_id r of
        None \<Rightarrow> to_law_title r
      | Some t \<Rightarrow> if t = [] then to_law_title r else t) @ [58] @
     (case article r of None \<Rightarrow> [] | Some a \<Rightarrow> a)"
  by (simp add: dedup_key_def ascii_def truthy_def split: option.splits)

text \<open>
  Claim C6. Global deduplication is keyed by \<^verbatim>\<open>from_law_id\<close>, \<^verbatim>\<open>to_law_id\<close> (or
  \<^verbatim>\<open>to_law_title\<close> where \<^verbatim>\<open>to_law_id\<close> is null or empty) and \<^verbatim>\<open>article\<close> (null counting
  as empty): the key of a record is these three fields joined by colons (code unit 58),
  so that two keys whose first two parts contain no colon are equal exactly when the
  three parts are. It keeps the first-seen record for each key: the output is a
  subsequence of the input with one record per key, every key of the input is a key of
  the output, and for every input record the first output record with its key is the
  first input record with its key. It is idempotent: applied to its own output it
  returns that output unchanged.
\<close>

theorem dedupeReferences_first_seen_idempotent:
  "dedupeReferences (dedupeReferences refs) = dedupeReferences refs \<and>
   subseq (dedupeReferences refs) refs \<and>
   dedup_key ` set (dedupeReferences refs) = dedup_key ` set refs \<and>
   distinct (map dedup_key (dedupeReferences refs)) \<and>
   (\<forall>r \<in> set refs.
      find (\<lambda>x. dedup_key x = dedup_key r) (dedupeReferences refs)
        = find (\<lambda>x. dedup_key x = dedup_key r) refs) \<and>
   (\<forall>r. dedup_key r =
      from_law_id r @ [58] @
      (case to_law_id r of
         None \<Rightarrow> to_law_title r
       | Some t \<Rightarrow> if t = [] then to_law_title r else t) @ [58] @
      (case article r of None \<Rightarrow> [] | Some a \<Rightarrow> a)) \<and>
   (\<forall>(f :: jsstring) t a f' t' a'.
      58 \<notin> set f \<and> 58 \<notin> set t \<and> 58 \<notin> set f' \<and> 58 \<notin> set t' \<longrightarrow>
      (f @ [58] @ t @ [58] @ a = f' @ [58] @ t' @ [58] @ a' \<longleftrightarrow> f = f' \<and> t = t' \<and> a = a'))"
proof -
  have a: "dedupeReferences (dedupeReferences refs) = dedupeReferences refs"
    and b: "subseq (dedupeReferences refs) refs"
    and c: "dedup_key ` set (dedupeReferences refs) = dedup_key ` set refs"
    and d: "distinct (map dedup_key (dedupeReferences refs))"
    and e: "\<forall>r \<in> set refs.
      find (\<lambda>x. dedup_key x = dedup_key r) (dedupeReferences refs)
        = find (\<lambda>x. dedup_key x = dedup_key r) refs"
    unfolding dedupeReferences_def
    by (simp_all add: dedupe_filter_fixed dedupe_filter_distinct dedupe_filter_find
        dedupe_filter_subseq dedupe_filter_keys)
  have f: "\<forall>r. dedup_key r =
      from_law_id r @ [58] @
      (case to_law_id r of
         None \<Rightarrow> to_law_title r
       | Some t \<Rightarrow> if t = [] then to_law_title r else t) @ [58] @
      (case article r of None \<Rightarrow> [] | Some a \<Rightarrow> a)"
    by (rule allI) (rule dedup_key_fields)
  have g: "\<forall>(f :: jsstring) t a f' t' a'.
      58 \<notin> set f \<and> 58 \<notin> set t \<and> 58 \<notin> set f' \<and> 58 \<notin> set t' \<longrightarrow>
      (f @ [58] @ t @ [58] @ a = f' @ [58] @ t' @ [58] @ a' \<longleftrightarrow> f = f' \<and> t = t' \<and> a = a')"
  proof (intro allI impI)
    fix f t a f' t' a' :: jsstring
    assume "58 \<notin> set f \<and> 58 \<notin> set t \<and> 58 \<notin> set f' \<and> 58 \<notin> set t'"
    then have "58 \<notin> set f" "58 \<notin> set t" "58 \<notin> set f'" "58 \<notin> set t'" by simp_all
    then show "f @ [58] @ t @ [58] @ a = f' @ [58] @ t' @ [58] @ a' \<longleftrightarrow> f = f' \<and> t = t' \<and> a = a'"
      by (rule joined_parts_equal)
  qed
  show ?thesis by (rule conjI a b c d e f g)+
qed

text \<open>
  Sample references. A cites B without an article, under article 1 and under article 2,
  and once more without an article under another title and type; A cites two laws that
  are not in the registry (\<^verbatim>\<open>to_law_id\<close> null), titled X and Y, and cites X once more in
  a record whose \<^verbatim>\<open>to_law_id\<close> is the empty string.
\<close>

definition ref_AB :: reference where
  "ref_AB = \<lparr>from_law_id = ascii ''A'', from_law_title = ascii ''Act A'',
     to_law_id = Some (ascii ''B''), to_law_title = ascii ''Act B'', to_law_num = None,
     article = None, paragraph' = None, item = None, ref_type = law_name\<rparr>"

definition ref_AC :: reference where
  "ref_AC = \<lparr>from_law_id = ascii ''A'', from_law_title = ascii ''Act A'',
     to_law_id = Some (ascii ''C''), to_law_title = ascii ''Act C'', to_law_num = None,
     article = None, paragraph' = None, item = None, ref_type = law_name\<rparr>"

definition ref_AB_again :: reference where
  "ref_AB_again = ref_AB\<lparr>to_law_title := ascii ''B Act'', ref_type := law_num_ref\<rparr>"

definition ref_AB_art1 :: reference where
  "ref_AB_art1 = ref_AB\<lparr>article := Some (ascii ''Art.1''), ref_type := article_ref\<rparr>"

definition ref_AB_art2 :: reference where
  "ref_AB_art2 = ref_AB\<lparr>article := Some (ascii ''Art.2''), ref_type := article_ref\<rparr>"

definition ref_AX :: reference where
  "ref_AX = \<lparr>from_law_id = ascii ''A'', from_law_title = ascii ''Act A'',
     to_law_id = None, to_law_title = ascii ''X'', to_law_num = Some (ascii ''No.1''),
     article = None, paragraph' = None, item = None, ref_type = unknown_law\<rparr>"

definition ref_AY :: reference where
  "ref_AY = ref_AX\<lparr>to_law_title := ascii ''Y''\<rparr>"

definition ref_AX_again :: reference where
  "ref_AX_again = ref_AX\<lparr>to_law_id := Some [], to_law_num := None\<rparr>"

definition sample_refs :: "reference list" where
  "sample_refs =
     [ref_AB, ref_AB_art1, ref_AC, ref_AB_art2, ref_AB_again, ref_AX, ref_AB_art1, ref_AY,
      ref_AX_again]"

lemmas sample_refs_eval = dedupeReferences_def dedup_key_def sample_refs_def
  ref_AB_def ref_AC_def ref_AB_again_def ref_AB_art1_def ref_AB_art2_def ref_AX_def
  ref_AY_def ref_AX_again_def ascii_def truthy_def

theorem dedupeReferences_first_seen_idempotent_witness:
  "dedupeReferences sample_refs = [ref_AB, ref_AB_art1, ref_AC, ref_AB_art2, ref_AX, ref_AY] \<and>
   dedupeReferences (dedupeReferences sample_refs) = dedupeReferences sample_refs \<and>
   subseq (dedupeReferences sample_refs) sample_refs \<and>
   ref_AB_again \<in> set sample_refs \<and>
   find (\<lambda>x. dedup_key x = dedup_key ref_AB_again) (dedupeReferences sample_refs) = Some ref_AB \<and>
   ref_AX_again \<in> set sample_refs \<and>
   find (\<lambda>x. dedup_key x = dedup_key ref_AX_again) (dedupeReferences sample_refs) = Some ref_AX \<and>
   dedup_key ref_AB_art1 = ascii ''A:B:Art.1'' \<and>
   dedup_key ref_AX_again = ascii ''A:X:''"
proof -
  have e: "dedupeReferences sample_refs
      = [ref_AB, ref_AB_art1, ref_AC, ref_AB_art2, ref_AX, ref_AY]"
    by (simp add: sample_refs_eval)
  have f: "find (\<lambda>x. dedup_key x = dedup_key ref_AB_again) sample_refs = Some ref_AB"
    and g: "find (\<lambda>x. dedup_key x = dedup_key ref_AX_again) sample_refs = Some ref_AX"
    by (simp_all add: sample_refs_eval)
  have m: "ref_AB_again \<in> set sample_refs" "ref_AX_again \<in> set sample_refs"
    by (simp_all add: sample_refs_def)
  have k: "dedup_key ref_AB_art1 = ascii ''A:B:Art.1''" "dedup_key ref_AX_again = ascii ''A:X:''"
    by (simp_all add: sample_refs_eval)
  note t = dedupeReferences_first_seen_idempotent [of sample_refs]
  from t have i: "dedupeReferences (dedupeReferences sample_refs) = dedupeReferences sample_refs"
    by (rule conjunct1)
  from t have s: "subseq (dedupeReferences sample_refs) sample_refs"
    by (rule conjunct2 [THEN conjunct1])
  from t have fd: "\<forall>r \<in> set sample_refs.
      find (\<lambda>x. dedup_key x = dedup_key r) (dedupeReferences sample_refs)
        = find (\<lambda>x. dedup_key x = dedup_key r) sample_refs"
    by (rule conjunct2 [THEN conjunct2, THEN conjunct2, THEN conjunct2, THEN conjunct1])
  from fd [THEN bspec, OF m(1)] f
  have f': "find (\<lambda>x. dedup_key x = dedup_key ref_AB_again) (dedupeReferences sample_refs)
      = Some ref_AB"
    by (rule trans)
  from fd [THEN bspec, OF m(2)] g
  have g': "find (\<lambda>x. dedup_key x = dedup_key ref_AX_again) (dedupeReferences sample_refs)
      = Some ref_AX"
    by (rule trans)
  show ?thesis by (rule conjI e i s m f' g' k)+
qed


section \<open>Backlink aggregation\<close>

text \<open>
  \<^verbatim>\<open>buildBacklinks(references, laws)\<close> of \<^verbatim>\<open>analyze_references_multi.ts\<close>. An entry of
  the result is \<^verbatim>\<open>{law_id, law_title, referenced_by}\<close>, a referrer is
  \<^verbatim>\<open>{law_id, law_title, count}\<close>. The result is the \<^verbatim>\<open>backlinks.backlinks\<close> object, a map
  from law ids to entries (the time stamp \<^verbatim>\<open>updated_at\<close> beside it is left out).
\<close>

record titled =
  law_id :: jsstring
  law_title :: jsstring

record referrer = titled +
  count :: nat

record backlink_entry = titled +
  referenced_by :: "referrer list"

text \<open>
  \<^verbatim>\<open>countMap\<close> is a \<^verbatim>\<open>Map<string, Map<string, number>>\<close>; both levels keep their keys in
  insertion order, and setting an existing key keeps its place.
  \<^verbatim>\<open>fromMap.set(ref.from_law_id, (fromMap.get(ref.from_law_id) || 0) + 1)\<close> is \<open>bump\<close>;
  a reference with a falsy \<^verbatim>\<open>to_law_id\<close> (\<^verbatim>\<open>null\<close> or the empty string) is skipped by
  \<^verbatim>\<open>if (!ref.to_law_id) continue\<close>.
\<close>

type_synonym count_map = "(jsstring \<times> (jsstring \<times> nat) list) list"

fun bump :: "(jsstring \<times> nat) list \<Rightarrow> jsstring \<Rightarrow> (jsstring \<times> nat) list" where
  "bump [] fromId = [(fromId, 1)]"
| "bump ((k, c) # fromMap) fromId =
     (if k = fromId then (k, c + 1) # fromMap else (k, c) # bump fromMap fromId)"

fun count_ref :: "count_map \<Rightarrow> jsstring \<Rightarrow> jsstring \<Rightarrow> count_map" where
  "count_ref [] toId fromId = [(toId, bump [] fromId)]"
| "count_ref ((k, fromMap) # countMap) toId fromId =
     (if k = toId then (k, bump fromMap fromId) # countMap
      else (k, fromMap) # count_ref countMap toId fromId)"

definition count_step :: "reference \<Rightarrow> count_map \<Rightarrow> count_map" where
  "count_step ref countMap =
     (case to_law_id ref of
        None \<Rightarrow> countMap
      | Some t \<Rightarrow> if truthy t then count_ref countMap t (from_law_id ref) else countMap)"

text \<open>The first loop: one entry with an empty referrer list per law of the registry.\<close>

definition seed_backlinks :: "law_index list \<Rightarrow> (jsstring \<rightharpoonup> backlink_entry)" where
  "seed_backlinks laws =
     fold (\<lambda>law b. b(id' law \<mapsto> \<lparr>law_id = id' law, law_title = title law, referenced_by = []\<rparr>))
       laws Map.empty"

text \<open>
  The last loop: for a target that has an entry, the referrers found in the registry
  (\<^verbatim>\<open>laws.find(l => l.id === fromLawId)\<close>) are pushed in the order of \<^verbatim>\<open>fromMap\<close>, then
  \<^verbatim>\<open>referenced_by.sort((a, b) => b.count - a.count)\<close>, a stable sort.
\<close>

definition referrers :: "law_index list \<Rightarrow> (jsstring \<times> nat) list \<Rightarrow> referrer list" where
  "referrers laws fromMap =
     List.map_filter (\<lambda>(fromLawId, n).
        case find (\<lambda>l. id' l = fromLawId) laws of
          None \<Rightarrow> None
        | Some fromLaw \<Rightarrow> Some \<lparr>law_id = fromLawId, law_title = title fromLaw, count = n\<rparr>)
       fromMap"

definition sort_by_count_desc :: "referrer list \<Rightarrow> referrer list" where
  "sort_by_count_desc rs = sort_key (\<lambda>r. - int (count r)) rs"

definition fill_backlinks ::
  "law_index list \<Rightarrow> jsstring \<times> (jsstring \<times> nat) list \<Rightarrow> (jsstring \<rightharpoonup> backlink_entry)
     \<Rightarrow> (jsstring \<rightharpoonup> backlink_entry)" where
  "fill_backlinks laws entry b =
     (case entry of (toLawId, fromMap) \<Rightarrow>
        (case b toLawId of
           None \<Rightarrow> b
         | Some e \<Rightarrow>
             b(toLawId \<mapsto>
               e\<lparr>referenced_by := sort_by_count_desc (referenced_by e @ referrers laws fromMap)\<rparr>)))"

definition buildBacklinks :: "reference list \<Rightarrow> law_index list \<Rightarrow> (jsstring \<rightharpoonup> backlink_entry)" where
  "buildBacklinks references laws =
     fold (fill_backlinks laws) (fold count_step references []) (seed_backlinks laws)"


subsection \<open>Properties of the aggregation\<close>

lemma seed_fold_dom:
  "dom (fold (\<lambda>law b. b(id' law \<mapsto> \<lparr>law_id = id' law, law_title = title law, referenced_by = []\<rparr>))
          laws b) = dom b \<union> id' ` set laws"
  by (induction laws arbitrary: b) auto

lemma seed_fold_entries:
  assumes "\<And>k e. b k = Some e \<Longrightarrow> law_id e = k \<and> referenced_by e = []"
    and "fold (\<lambda>law b. b(id' law \<mapsto> \<lparr>law_id = id' law, law_title = title law, referenced_by = []\<rparr>))
          laws b k = Some e"
  shows "law_id e = k \<and> referenced_by e = []"
  using assms
proof (induction laws arbitrary: b)
  case Nil
  then show ?case by simp
next
  case (Cons law laws)
  let ?b = "b(id' law \<mapsto> \<lparr>law_id = id' law, law_title = title law, referenced_by = []\<rparr>)"
  have "law_id e' = k' \<and> referenced_by e' = []" if "?b k' = Some e'" for k' e'
    using that Cons.prems(1) [of k' e'] by (cases "k' = id' law") auto
  from Cons.IH [of ?b, OF this] Cons.prems(2) show ?case by simp
qed

lemma seed_backlinks_dom: "dom (seed_backlinks laws) = id' ` set laws"
  by (simp add: seed_backlinks_def seed_fold_dom)

lemma seed_backlinks_entry:
  "seed_backlinks laws k = Some e \<Longrightarrow> law_id e = k \<and> referenced_by e = []"
  unfolding seed_backlinks_def by (rule seed_fold_entries [where b = Map.empty]) auto

text \<open>
  The number of references counted for a target, the referring laws of a count map, and
  what it means for a reference to cite a law: its \<^verbatim>\<open>to_law_id\<close> is truthy and is the
  law's id.
\<close>

definition total_for :: "count_map \<Rightarrow> jsstring \<Rightarrow> nat" where
  "total_for countMap t =
     (case map_of countMap t of None \<Rightarrow> 0 | Some fromMap \<Rightarrow> sum_list (map snd fromMap))"

definition referring :: "count_map \<Rightarrow> jsstring set" where
  "referring countMap = (\<Union>(t, fromMap) \<in> set countMap. fst ` set fromMap)"

definition cited :: "reference \<Rightarrow> jsstring \<Rightarrow> bool" where
  "cited ref t = (to_law_id ref = Some t \<and> truthy t)"

lemma bump_sum: "sum_list (map snd (bump fromMap f)) = sum_list (map snd fromMap) + 1"
  by (induction fromMap f rule: bump.induct) auto

lemma bump_keys: "fst ` set (bump fromMap f) = insert f (fst ` set fromMap)"
  by (induction fromMap f rule: bump.induct) auto

lemma count_ref_keys: "fst ` set (count_ref countMap t f) = insert t (fst ` set countMap)"
  by (induction countMap t f rule: count_ref.induct) auto

lemma count_ref_distinct:
  "distinct (map fst countMap) \<Longrightarrow> distinct (map fst (count_ref countMap t f))"
proof (induction countMap t f rule: count_ref.induct)
  case (1 toId fromId)
  show ?case by simp
next
  case (2 k fromMap countMap toId fromId)
  then show ?case using count_ref_keys [of countMap toId fromId] by auto
qed

lemma count_ref_total:
  "total_for (count_ref countMap t f) u = total_for countMap u + (if u = t then 1 else 0)"
  by (induction countMap t f rule: count_ref.induct) (auto simp: total_for_def bump_sum)

lemma count_ref_referring:
  "referring (count_ref countMap t f) = insert f (referring countMap)"
  by (induction countMap t f rule: count_ref.induct) (auto simp: referring_def bump_keys)

lemma count_step_total:
  "total_for (count_step ref countMap) u = total_for countMap u + (if cited ref u then 1 else 0)"
  by (auto simp: count_step_def cited_def count_ref_total split: option.splits)

lemma count_step_distinct:
  "distinct (map fst countMap) \<Longrightarrow> distinct (map fst (count_step ref countMap))"
  by (auto simp: count_step_def count_ref_distinct split: option.splits)

lemma count_step_referring:
  "referring (count_step ref countMap) \<subseteq> insert (from_law_id ref) (referring countMap)"
  by (auto simp: count_step_def count_ref_referring split: option.splits)

lemma fold_count_total:
  "total_for (fold count_step refs countMap) u
     = total_for countMap u + length (filter (\<lambda>r. cited r u) refs)"
  by (induction refs arbitrary: countMap) (auto simp: count_step_total)

lemma fold_count_distinct:
  "distinct (map fst countMap) \<Longrightarrow> distinct (map fst (fold count_step refs countMap))"
  by (induction refs arbitrary: countMap) (auto simp: count_step_distinct)

lemma fold_count_referring:
  "referring (fold count_step refs countMap) \<subseteq> referring countMap \<union> from_law_id ` set refs"
proof (induction refs arbitrary: countMap)
  case Nil
  show ?case by simp
next
  case (Cons r refs)
  from Cons.IH [of "count_step r countMap"] count_step_referring [of r countMap]
  show ?case by auto
qed

lemma insort_sum:
  "sum_list (map f (insort_key k x xs)) = f x + sum_list (map f xs)"
  for f :: "'a \<Rightarrow> nat" and k :: "'a \<Rightarrow> int"
  by (induction xs) auto

lemma sort_key_sum:
  "sum_list (map f (sort_key k xs)) = sum_list (map f xs)"
  for f :: "'a \<Rightarrow> nat" and k :: "'a \<Rightarrow> int"
  by (induction xs) (auto simp: insort_sum)

lemma sort_by_count_desc_sum:
  "sum_list (map count (sort_by_count_desc rs)) = sum_list (map count rs)"
  by (simp add: sort_by_count_desc_def sort_key_sum)

lemma sort_by_count_desc_sorted:
  "sorted_wrt (\<lambda>a b. count a \<ge> count b) (sort_by_count_desc rs)"
proof -
  have "sorted (map (\<lambda>r. - int (count r)) (sort_by_count_desc rs))"
    unfolding sort_by_count_desc_def by (rule sorted_sort_key)
  then show ?thesis
    by (simp add: sorted_map)
qed

lemma sort_by_count_desc_Nil: "sort_by_count_desc [] = []"
  by (simp add: sort_by_count_desc_def)

lemma referrers_sum:
  "fst ` set fromMap \<subseteq> id' ` set laws \<Longrightarrow>
     sum_list (map count (referrers laws fromMap)) = sum_list (map snd fromMap)"
proof (induction fromMap)
  case Nil
  show ?case by (simp add: referrers_def)
next
  case (Cons p fromMap)
  obtain k n where p: "p = (k, n)" by (cases p)
  from Cons.prems p have "k \<in> id' ` set laws" by simp
  then have "find (\<lambda>l. id' l = k) laws \<noteq> None" by (auto simp: find_None_iff)
  then obtain law where "find (\<lambda>l. id' l = k) laws = Some law" by auto
  with Cons p show ?case by (simp add: referrers_def)
qed

lemma fold_fill:
  "distinct (map fst countMap) \<Longrightarrow>
     fold (fill_backlinks laws) countMap b t =
       (case map_of countMap t of
          None \<Rightarrow> b t
        | Some fromMap \<Rightarrow>
            (case b t of
               None \<Rightarrow> None
             | Some e \<Rightarrow> Some (e\<lparr>referenced_by :=
                   sort_by_count_desc (referenced_by e @ referrers laws fromMap)\<rparr>)))"
proof (induction countMap arbitrary: b)
  case Nil
  show ?case by simp
next
  case (Cons p countMap)
  obtain k fromMap where p: "p = (k, fromMap)" by (cases p)
  from Cons.prems p have d: "distinct (map fst countMap)" and k: "map_of countMap k = None"
    by (auto simp: map_of_eq_None_iff)
  show ?case
  proof (cases "t = k")
    case True
    with Cons.IH [OF d, of "fill_backlinks laws p b"] k p show ?thesis
      by (auto simp: fill_backlinks_def split: option.splits)
  next
    case False
    with Cons.IH [OF d, of "fill_backlinks laws p b"] p show ?thesis
      by (auto simp: fill_backlinks_def split: option.splits)
  qed
qed


lemma fold_count_keys:
  "fst ` set (fold count_step refs countMap)
     = fst ` set countMap \<union> {t. \<exists>r \<in> set refs. cited r t}"
proof (induction refs arbitrary: countMap)
  case Nil
  show ?case by simp
next
  case (Cons r refs)
  have "fst ` set (count_step r countMap) = fst ` set countMap \<union> {t. cited r t}"
    by (auto simp: count_step_def cited_def count_ref_keys split: option.splits)
  with Cons.IH [of "count_step r countMap"] show ?case by auto
qed

lemma map_of_referring:
  "map_of countMap t = Some fromMap \<Longrightarrow> fst ` set fromMap \<subseteq> referring countMap"
  by (auto simp: referring_def dest!: map_of_SomeD)

text \<open>Sample registry entries and references.\<close>

definition law_A :: law_index where
  "law_A = \<lparr>id' = ascii ''A'', lawNum = None, title = ascii ''Act A'', category = ascii ''Act''\<rparr>"

definition law_B :: law_index where
  "law_B = \<lparr>id' = ascii ''B'', lawNum = None, title = ascii ''Act B'', category = ascii ''Act''\<rparr>"

definition law_C :: law_index where
  "law_C = \<lparr>id' = ascii ''C'', lawNum = None, title = ascii ''Act C'', category = ascii ''Act''\<rparr>"

definition ref_CB :: reference where
  "ref_CB = ref_AB\<lparr>from_law_id := ascii ''C'', from_law_title := ascii ''Act C''\<rparr>"

lemma buildBacklinks_entry:
  assumes "from_law_id ` set references \<subseteq> id' ` set laws" and "l \<in> set laws"
  shows "\<exists>e. buildBacklinks references laws (id' l) = Some e \<and> law_id e = id' l \<and>
     sorted_wrt (\<lambda>a b. count a \<ge> count b) (referenced_by e) \<and>
     ((\<forall>r \<in> set references. \<not> cited r (id' l)) \<longrightarrow> referenced_by e = []) \<and>
     sum_list (map count (referenced_by e))
       = length (filter (\<lambda>r. to_law_id r = Some (id' l) \<and> truthy (id' l)) references)"
proof -
  let ?cm = "fold count_step references []"
  let ?t = "id' l"
  have dist: "distinct (map fst ?cm)" by (rule fold_count_distinct) simp
  have "?t \<in> dom (seed_backlinks laws)" using assms(2) by (simp add: seed_backlinks_dom)
  then obtain e0 where e0: "seed_backlinks laws ?t = Some e0" by auto
  from seed_backlinks_entry [OF e0] have e0_id: "law_id e0 = ?t" and e0_refs: "referenced_by e0 = []"
    by simp_all
  have tot: "total_for ?cm ?t = length (filter (\<lambda>r. cited r ?t) references)"
    using fold_count_total [of references "[]" ?t] by (simp add: total_for_def)
  have cnt: "length (filter (\<lambda>r. cited r ?t) references)
      = length (filter (\<lambda>r. to_law_id r = Some ?t \<and> truthy ?t) references)"
    by (simp add: cited_def)
  show ?thesis
  proof (cases "map_of ?cm ?t")
    case None
    then have b: "buildBacklinks references laws ?t = Some e0"
      using fold_fill [OF dist, of laws "seed_backlinks laws" ?t] e0
      by (simp add: buildBacklinks_def)
    from None have "total_for ?cm ?t = 0" by (simp add: total_for_def)
    with tot cnt b e0_id e0_refs show ?thesis by simp
  next
    case (Some fromMap)
    let ?rs = "sort_by_count_desc (referenced_by e0 @ referrers laws fromMap)"
    from Some have b: "buildBacklinks references laws ?t = Some (e0\<lparr>referenced_by := ?rs\<rparr>)"
      using fold_fill [OF dist, of laws "seed_backlinks laws" ?t] e0
      by (simp add: buildBacklinks_def)
    have "fst ` set fromMap \<subseteq> referring ?cm" using Some by (rule map_of_referring)
    also have "\<dots> \<subseteq> from_law_id ` set references"
      using fold_count_referring [of references "[]"] by (simp add: referring_def)
    finally have "fst ` set fromMap \<subseteq> id' ` set laws" using assms(1) by simp
    then have "sum_list (map count (referrers laws fromMap)) = sum_list (map snd fromMap)"
      by (rule referrers_sum)
    also have "\<dots> = total_for ?cm ?t" using Some by (simp add: total_for_def)
    finally have sum: "sum_list (map count ?rs)
        = length (filter (\<lambda>r. to_law_id r = Some ?t \<and> truthy ?t) references)"
      using tot cnt e0_refs by (simp add: sort_by_count_desc_sum)
    have srt: "sorted_wrt (\<lambda>a b. count a \<ge> count b) ?rs" by (rule sort_by_count_desc_sorted)
    have "?t \<in> fst ` set ?cm" using Some by (auto dest: map_of_SomeD intro: rev_image_eqI)
    then have "\<exists>r \<in> set references. cited r ?t"
      using fold_count_keys [of references "[]"] by simp
    with b sum srt e0_id show ?thesis by auto
  qed
qed


text \<open>
  Claim C7. For every registry and every reference list (deduplicated or not) whose
  \<^verbatim>\<open>from_law_id\<close> values all occur in the registry, the aggregator has an entry for every
  law \<open>L\<close> of the registry, under the id of \<open>L\<close>; a law that no reference has as its
  \<^verbatim>\<open>to_law_id\<close> gets an empty \<^verbatim>\<open>referenced_by\<close> list; the \<^verbatim>\<open>referenced_by\<close> list of \<open>L\<close> is
  sorted by descending count; and, law ids being non-empty strings, the counts in it add
  up to the number of references whose \<^verbatim>\<open>to_law_id\<close> equals the id of \<open>L\<close>.
\<close>

theorem buildBacklinks_complete_sorted_sum:
  assumes "from_law_id ` set references \<subseteq> id' ` set laws" and "l \<in> set laws"
  shows "\<exists>e. buildBacklinks references laws (id' l) = Some e \<and> law_id e = id' l \<and>
     sorted_wrt (\<lambda>a b. count a \<ge> count b) (referenced_by e) \<and>
     ((\<forall>r \<in> set references. to_law_id r \<noteq> Some (id' l)) \<longrightarrow> referenced_by e = []) \<and>
     (id' l \<noteq> [] \<longrightarrow>
        sum_list (map count (referenced_by e))
          = length (filter (\<lambda>r. to_law_id r = Some (id' l)) references))"
proof -
  from buildBacklinks_entry [OF assms] obtain e where
    e: "buildBacklinks references laws (id' l) = Some e" "law_id e = id' l"
      "sorted_wrt (\<lambda>a b. count a \<ge> count b) (referenced_by e)"
      "(\<forall>r \<in> set references. \<not> cited r (id' l)) \<longrightarrow> referenced_by e = []"
      "sum_list (map count (referenced_by e))
         = length (filter (\<lambda>r. to_law_id r = Some (id' l) \<and> truthy (id' l)) references)"
    by blast
  from e(4) have z: "(\<forall>r \<in> set references. to_law_id r \<noteq> Some (id' l)) \<longrightarrow> referenced_by e = []"
    by (simp add: cited_def)
  from e(5) have s: "id' l \<noteq> [] \<longrightarrow>
      sum_list (map count (referenced_by e))
        = length (filter (\<lambda>r. to_law_id r = Some (id' l)) references)"
    by (simp add: truthy_def)
  from e(1,2,3) z s show ?thesis by blast
qed

text \<open>
  The sample: A cites B twice (once under article 1) and C cites B once, a list that
  deduplication leaves as it is. The entry of B lists A with count 2 before C with
  count 1, three references in all; the entry of C, which nothing cites, is empty.
\<close>

theorem buildBacklinks_complete_sorted_sum_witness:
  "dedupeReferences [ref_AB, ref_CB, ref_AB_art1] = [ref_AB, ref_CB, ref_AB_art1] \<and>
   from_law_id ` set [ref_AB, ref_CB, ref_AB_art1] \<subseteq> id' ` set [law_A, law_B, law_C] \<and>
   law_B \<in> set [law_A, law_B, law_C] \<and> id' law_B \<noteq> [] \<and>
   map_option referenced_by
     (buildBacklinks [ref_AB, ref_CB, ref_AB_art1] [law_A, law_B, law_C] (id' law_B))
     = Some [\<lparr>law_id = ascii ''A'', law_title = ascii ''Act A'', count = 2\<rparr>,
             \<lparr>law_id = ascii ''C'', law_title = ascii ''Act C'', count = 1\<rparr>] \<and>
   length (filter (\<lambda>r. to_law_id r = Some (id' law_B)) [ref_AB, ref_CB, ref_AB_art1]) = 3 \<and>
   (\<exists>e. buildBacklinks [ref_AB, ref_CB, ref_AB_art1] [law_A, law_B, law_C] (id' law_B) = Some e \<and>
      law_id e = id' law_B \<and>
      sorted_wrt (\<lambda>a b. count a \<ge> count b) (referenced_by e) \<and>
      sum_list (map count (referenced_by e)) = 3) \<and>
   law_C \<in> set [law_A, law_B, law_C] \<and>
   length (filter (\<lambda>r. to_law_id r = Some (id' law_C)) [ref_AB, ref_CB, ref_AB_art1]) = 0 \<and>
   (\<exists>e. buildBacklinks [ref_AB, ref_CB, ref_AB_art1] [law_A, law_B, law_C] (id' law_C) = Some e \<and>
      law_id e = id' law_C \<and> referenced_by e = [])"
proof -
  let ?refs = "[ref_AB, ref_CB, ref_AB_art1]"
  let ?laws = "[law_A, law_B, law_C]"
  have d: "dedupeReferences ?refs = ?refs"
    by (simp add: dedupeReferences_def dedup_key_def ref_AB_def ref_CB_def ref_AB_art1_def
        ascii_def truthy_def)
  have h1: "from_law_id ` set ?refs \<subseteq> id' ` set ?laws"
    by (simp add: ref_AB_def ref_CB_def ref_AB_art1_def law_A_def law_B_def law_C_def ascii_def)
  have h2: "law_B \<in> set ?laws" and h3: "law_C \<in> set ?laws" by simp_all
  have ne: "id' law_B \<noteq> []" by (simp add: law_B_def ascii_def)
  have ev: "map_option referenced_by (buildBacklinks ?refs ?laws (id' law_B))
     = Some [\<lparr>law_id = ascii ''A'', law_title = ascii ''Act A'', count = 2\<rparr>,
             \<lparr>law_id = ascii ''C'', law_title = ascii ''Act C'', count = 1\<rparr>]"
    by (simp add: buildBacklinks_def seed_backlinks_def count_step_def truthy_def
        fill_backlinks_def referrers_def sort_by_count_desc_def
        ref_AB_def ref_CB_def ref_AB_art1_def law_A_def law_B_def law_C_def ascii_def)
  have n: "length (filter (\<lambda>r. to_law_id r = Some (id' law_B)) ?refs) = 3"
    by (simp add: ref_AB_def ref_CB_def ref_AB_art1_def law_B_def ascii_def)
  have c: "\<forall>r \<in> set ?refs. to_law_id r \<noteq> Some (id' law_C)"
    by (simp add: ref_AB_def ref_CB_def ref_AB_art1_def law_C_def ascii_def)
  then have c0: "length (filter (\<lambda>r. to_law_id r = Some (id' law_C)) ?refs) = 0"
    by simp
  from buildBacklinks_complete_sorted_sum [OF h1 h2] obtain eB where
    eB: "buildBacklinks ?refs ?laws (id' law_B) = Some eB" "law_id eB = id' law_B"
      "sorted_wrt (\<lambda>a b. count a \<ge> count b) (referenced_by eB)"
      "id' law_B \<noteq> [] \<longrightarrow> sum_list (map count (referenced_by eB))
         = length (filter (\<lambda>r. to_law_id r = Some (id' law_B)) ?refs)"
    by blast
  from eB(4) ne n have "sum_list (map count (referenced_by eB)) = 3" by simp
  with eB(1,2,3)
  have b: "\<exists>e. buildBacklinks ?refs ?laws (id' law_B) = Some e \<and> law_id e = id' law_B \<and>
      sorted_wrt (\<lambda>a b. count a \<ge> count b) (referenced_by e) \<and>
      sum_list (map count (referenced_by e)) = 3"
    by blast
  from buildBacklinks_complete_sorted_sum [OF h1 h3] obtain eC where
    eC: "buildBacklinks ?refs ?laws (id' law_C) = Some eC" "law_id eC = id' law_C"
      "(\<forall>r \<in> set ?refs. to_law_id r \<noteq> Some (id' law_C)) \<longrightarrow> referenced_by eC = []"
    by blast
  from eC(3) c have "referenced_by eC = []" by (rule mp)
  with eC(1,2)
  have e: "\<exists>e. buildBacklinks ?refs ?laws (id' law_C) = Some e \<and> law_id e = id' law_C \<and>
      referenced_by e = []"
    by blast
  show ?thesis by (rule conjI d h1 h2 h3 ne ev n c0 b e)+
qed

section \<open>Regular expressions\<close>

text \<open>
  The extractor matches four regular expressions. They are written here with a small set
  of backtracking matchers in continuation-passing style, which follow the matching
  order of JavaScript: a matcher takes the continuation \<open>k\<close> (the rest of the pattern)
  and the state (the input still to be read and the capture groups set so far) and
  returns the final state of the first successful way to match, or \<open>None\<close>.
  Alternatives are tried left to right, a greedy quantifier tries one more repetition
  before it tries the continuation, a lazy quantifier the other way round.
\<close>

type_synonym captures = "nat \<rightharpoonup> jsstring"
type_synonym mstate = "jsstring \<times> captures"
type_synonym matcher = "(mstate \<Rightarrow> mstate option) \<Rightarrow> mstate \<Rightarrow> mstate option"

text \<open>A character class, a single character, concatenation, a literal string,
  alternation \<^verbatim>\<open>a|b\<close>, and a capture group, which records the text its body consumed.\<close>

definition cls :: "(nat \<Rightarrow> bool) \<Rightarrow> matcher" where
  "cls P k st = (case fst st of [] \<Rightarrow> None | c # cs \<Rightarrow> if P c then k (cs, snd st) else None)"

definition chr :: "nat \<Rightarrow> matcher" where
  "chr c = cls (\<lambda>x. x = c)"

definition seq :: "matcher \<Rightarrow> matcher \<Rightarrow> matcher" where
  "seq m1 m2 k = m1 (m2 k)"

definition lit :: "jsstring \<Rightarrow> matcher" where
  "lit s = foldr (\<lambda>c m. seq (chr c) m) s (\<lambda>k. k)"

definition alt :: "matcher \<Rightarrow> matcher \<Rightarrow> matcher" where
  "alt m1 m2 k st = (case m1 k st of Some r \<Rightarrow> Some r | None \<Rightarrow> m2 k st)"

definition grp :: "nat \<Rightarrow> matcher \<Rightarrow> matcher" where
  "grp i m k st =
     m (\<lambda>st'. k (fst st', (snd st')(i \<mapsto> take (length (fst st) - length (fst st')) (fst st)))) st"

text \<open>
  The quantifiers \<^verbatim>\<open>{lo,hi}\<close> (greedy) and \<^verbatim>\<open>{lo,hi}?\<close> (lazy). \<^verbatim>\<open>+\<close> is the greedy
  quantifier with at least one repetition; it is only applied to character classes, which
  consume one character per repetition, so the length of the input bounds it.
  \<^verbatim>\<open>?\<close> is \<^verbatim>\<open>{0,1}\<close>.
\<close>

fun rep_greedy :: "nat \<Rightarrow> nat \<Rightarrow> matcher \<Rightarrow> matcher" where
  "rep_greedy lo hi m k =
     (\<lambda>st. if hi = 0 then (if lo = 0 then k st else None)
           else (case m (rep_greedy (lo - 1) (hi - 1) m k) st of
                   Some r \<Rightarrow> Some r
                 | None \<Rightarrow> if lo = 0 then k st else None))"

fun rep_lazy :: "nat \<Rightarrow> nat \<Rightarrow> matcher \<Rightarrow> matcher" where
  "rep_lazy lo hi m k =
     (\<lambda>st. if hi = 0 then (if lo = 0 then k st else None)
           else if lo = 0
           then (case k st of
                   Some r \<Rightarrow> Some r
                 | None \<Rightarrow> m (rep_lazy 0 (hi - 1) m k) st)
           else m (rep_lazy (lo - 1) (hi - 1) m k) st)"

declare rep_greedy.simps [simp del] rep_lazy.simps [simp del]

definition one_or_more :: "matcher \<Rightarrow> matcher" where
  "one_or_more m k st = rep_greedy 1 (length (fst st)) m k st"

definition zero_or_one :: "matcher \<Rightarrow> matcher" where
  "zero_or_one m = rep_greedy 0 1 m"

text \<open>
  \<^verbatim>\<open>text.match(/^.../)\<close> with an anchored pattern matches at the start of the text only.
  \<^verbatim>\<open>pattern.exec(text)\<close> with the \<^verbatim>\<open>g\<close> flag looks for the first position, from
  \<^verbatim>\<open>lastIndex\<close> on, where the pattern matches, and moves \<^verbatim>\<open>lastIndex\<close> behind the match;
  \<open>search\<close> returns the text behind the match with the groups. The loop
  \<^verbatim>\<open>while ((match = pattern.exec(text)) !== null)\<close> collects the groups of all matches; it
  would not end on a pattern that matches the empty string, in which case the result is
  \<open>None\<close>.
\<close>

definition match_at :: "matcher \<Rightarrow> jsstring \<Rightarrow> mstate option" where
  "match_at m s = m Some (s, Map.empty)"

fun search :: "matcher \<Rightarrow> jsstring \<Rightarrow> mstate option" where
  "search m [] = match_at m []"
| "search m (c # cs) =
     (case match_at m (c # cs) of Some r \<Rightarrow> Some r | None \<Rightarrow> search m cs)"

partial_function (option) exec_all :: "matcher \<Rightarrow> jsstring \<Rightarrow> captures list option" where
  "exec_all m s =
     (case search m s of
        None \<Rightarrow> Some []
      | Some (rest, caps) \<Rightarrow> Option.bind (exec_all m rest) (\<lambda>ms. Some (caps # ms)))"

text \<open>
  The character classes: \<^verbatim>\<open>[U+4E00-U+9FA0 U+3041-U+3093 U+30A1-U+30F6]\<close> (ideographs and
  kana); the same with the full-width and ASCII letters and the middle dot U+30FB; the
  numerals of an article number (the ideographs for one to ten, zero U+3007, the
  full-width and ASCII digits), to which the first group of the article pattern adds
  hundred U+767E and thousand U+5343.
\<close>

definition kanji_kana :: "nat \<Rightarrow> bool" where
  "kanji_kana c =
     ((0x4E00 \<le> c \<and> c \<le> 0x9FA0) \<or> (0x3041 \<le> c \<and> c \<le> 0x3093) \<or> (0x30A1 \<le> c \<and> c \<le> 0x30F6))"

definition law_name_char :: "nat \<Rightarrow> bool" where
  "law_name_char c =
     (kanji_kana c \<or> (0xFF41 \<le> c \<and> c \<le> 0xFF5A) \<or> (0xFF21 \<le> c \<and> c \<le> 0xFF3A) \<or>
      (0x61 \<le> c \<and> c \<le> 0x7A) \<or> (0x41 \<le> c \<and> c \<le> 0x5A) \<or> c = 0x30FB)"

definition sub_digit :: "nat \<Rightarrow> bool" where
  "sub_digit c =
     (c \<in> set [0x4E00, 0x4E8C, 0x4E09, 0x56DB, 0x4E94, 0x516D, 0x4E03, 0x516B, 0x4E5D, 0x5341, 0x3007]
      \<or> (0xFF10 \<le> c \<and> c \<le> 0xFF19) \<or> (0x30 \<le> c \<and> c \<le> 0x39))"

definition article_digit :: "nat \<Rightarrow> bool" where
  "article_digit c = (sub_digit c \<or> c = 0x767E \<or> c = 0x5343)"

text \<open>
  The era names (Meiji, Taisho, Showa, Heisei, Reiwa) and the parenthesised promulgation
  number \<^verbatim>\<open>U+FF08 ((?:era)[^U+FF09]{3,50}?U+53F7) U+FF09\<close>, with the number of its group.
\<close>

definition era :: matcher where
  "era = alt (lit [0x660E, 0x6CBB]) (alt (lit [0x5927, 0x6B63]) (alt (lit [0x662D, 0x548C])
           (alt (lit [0x5E73, 0x6210]) (lit [0x4EE4, 0x548C]))))"

definition law_num :: "nat \<Rightarrow> matcher" where
  "law_num i = seq (chr 0xFF08)
     (seq (grp i (seq era (seq (rep_lazy 3 50 (cls (\<lambda>c. c \<noteq> 0xFF09))) (chr 0x53F7))))
          (chr 0xFF09))"

text \<open>
  The article pattern of Phase 1, anchored at the start of \<^verbatim>\<open>afterText\<close>:
  U+7B2C, numerals (group 1), U+6761, then optionally U+306E with numerals (group 2),
  optionally U+7B2C numerals (group 3) U+9805, optionally U+7B2C numerals (group 4)
  U+53F7. The number pattern of Phase 1 is the parenthesised number, also anchored.
\<close>

definition articlePattern :: matcher where
  "articlePattern =
     seq (chr 0x7B2C) (seq (grp 1 (one_or_more (cls article_digit))) (seq (chr 0x6761)
       (seq (zero_or_one (seq (chr 0x306E) (grp 2 (one_or_more (cls sub_digit)))))
         (seq (zero_or_one (seq (chr 0x7B2C) (seq (grp 3 (one_or_more (cls sub_digit))) (chr 0x9805))))
              (zero_or_one (seq (chr 0x7B2C) (seq (grp 4 (one_or_more (cls sub_digit))) (chr 0x53F7))))))))"

definition lawNumPattern :: matcher where
  "lawNumPattern = law_num 1"

text \<open>
  \<^verbatim>\<open>unknownLawWithNumPattern\<close>: a name of 2 to 50 name characters (lazy) ending in one of
  four suffixes (U+6CD5; U+4EE4; U+898F U+5247; U+6761 U+4F8B), group 1, followed by the
  parenthesised number, group 2. \<^verbatim>\<open>amendmentPattern\<close>: 2 to 50 ideographs or kana (lazy),
  group 1, the phrase "no ichibu wo kaisei suru", and one of four kinds of statute,
  group 2.
\<close>

definition unknownLawWithNumPattern :: matcher where
  "unknownLawWithNumPattern =
     seq (grp 1 (seq (rep_lazy 2 50 (cls law_name_char))
                  (alt (lit [0x6CD5]) (alt (lit [0x4EE4]) (alt (lit [0x898F, 0x5247])
                     (lit [0x6761, 0x4F8B]))))))
         (law_num 2)"

definition amendmentPattern :: matcher where
  "amendmentPattern =
     seq (grp 1 (rep_lazy 2 50 (cls kanji_kana)))
       (seq (lit [0x306E, 0x4E00, 0x90E8, 0x3092, 0x6539, 0x6B63, 0x3059, 0x308B])
            (grp 2 (alt (lit [0x6CD5, 0x5F8B]) (alt (lit [0x653F, 0x4EE4])
               (alt (lit [0x7701, 0x4EE4]) (lit [0x898F, 0x5247]))))))"

text \<open>
  The scenario text: the title U+6C11 U+6CD5 (the Civil Code), its promulgation number in
  full-width parentheses, and "article 3" (U+7B2C U+4E09 U+6761).
\<close>

definition number_scenario_text :: jsstring where
  "number_scenario_text = [0x6C11, 0x6CD5, 0xFF08, 0x660E, 0x6CBB, 0x4E8C, 0x5341, 0x4E5D, 0x5E74, 0x6CD5,
              0x5F8B, 0x7B2C, 0x516B, 0x5341, 0x4E5D, 0x53F7, 0xFF09, 0x7B2C, 0x4E09, 0x6761]"

lemmas regex_eval = cls_def chr_def seq_def lit_def alt_def grp_def one_or_more_def zero_or_one_def
  match_at_def rep_greedy.simps rep_lazy.simps era_def law_num_def
  kanji_kana_def law_name_char_def sub_digit_def article_digit_def



section \<open>Reference extraction\<close>

text \<open>
  \<^verbatim>\<open>extractReferences\<close> of \<^verbatim>\<open>analyze_worker.cjs\<close>. \<^verbatim>\<open>indexOf\<close> is the position of the first
  occurrence; \<open>captured\<close> reads a group that took part in the match.
\<close>

fun indexOf :: "jsstring \<Rightarrow> jsstring \<Rightarrow> nat option" where
  "indexOf [] name = (if name = [] then Some 0 else None)"
| "indexOf (c # cs) name =
     (if take (length name) (c # cs) = name then Some 0 else map_option Suc (indexOf cs name))"

definition captured :: "captures \<Rightarrow> nat \<Rightarrow> jsstring" where
  "captured g i = (case g i of None \<Rightarrow> [] | Some s \<Rightarrow> s)"

type_synonym extract_state = "reference list \<times> jsstring set"

text \<open>
  One pass of the loop of Phase 1 over \<^verbatim>\<open>knownLawNames\<close>, on the state of the function: the
  \<^verbatim>\<open>references\<close> pushed so far and the set \<^verbatim>\<open>seen\<close>. \<^verbatim>\<open>refType\<close> starts as
  \<^verbatim>\<open>law_name\<close>, becomes \<^verbatim>\<open>article_ref\<close> when the article pattern matches and then
  \<^verbatim>\<open>law_num_ref\<close> when the number pattern matches.
\<close>

definition phase1_step ::
  "jsstring \<Rightarrow> law_index \<Rightarrow> jsstring \<times> law_index \<Rightarrow> extract_state \<Rightarrow> extract_state" where
  "phase1_step xmlContent fromLaw cand st =
     (case cand of (name, law) \<Rightarrow>
      case st of (references, seen) \<Rightarrow>
        if id' law = id' fromLaw then st
        else if id' law \<in> seen then st
        else if length name < 2 then st
        else (case indexOf xmlContent name of
                None \<Rightarrow> st
              | Some pos \<Rightarrow>
                  if pos > 0 \<and> kanji_kana (xmlContent ! (pos - 1)) then st
                  else
                    let afterText = take 50 (drop (pos + length name) xmlContent);
                        artMatch = match_at articlePattern afterText;
                        numMatch = match_at lawNumPattern afterText
                    in (references @
                          [\<lparr>from_law_id = id' fromLaw,
                            from_law_title = title fromLaw,
                            to_law_id = Some (id' law),
                            to_law_title = name,
                            to_law_num = lawNum law,
                            article =
                              (case artMatch of
                                 None \<Rightarrow> None
                               | Some (rest, g) \<Rightarrow>
                                   Some ([0x7B2C] @ captured g 1 @ [0x6761] @
                                         (if truthy_opt (g 2) then [0x306E] @ captured g 2 else []))),
                            paragraph' =
                              (case artMatch of
                                 None \<Rightarrow> None
                               | Some (rest, g) \<Rightarrow>
                                   if truthy_opt (g 3) then Some ([0x7B2C] @ captured g 3 @ [0x9805])
                                   else None),
                            item =
                              (case artMatch of
                                 None \<Rightarrow> None
                               | Some (rest, g) \<Rightarrow>
                                   if truthy_opt (g 4) then Some ([0x7B2C] @ captured g 4 @ [0x53F7])
                                   else None),
                            ref_type =
                              (if numMatch \<noteq> None then law_num_ref
                               else if artMatch \<noteq> None then article_ref
                               else law_name)\<rparr>],
                        insert (id' law) seen)))"

text \<open>
  \<^verbatim>\<open>titleToLaw.get(lawName) || abbrevMap.get(lawName)\<close>, the reference pushed for a known
  law in Phases 2 and 3, and one pass of the loops of Phase 2 (over the matches of
  \<^verbatim>\<open>unknownLawWithNumPattern\<close>) and Phase 3 (over the matches of \<^verbatim>\<open>amendmentPattern\<close>).
  \<^verbatim>\<open>seen\<close> holds law ids and the keys \<^verbatim>\<open>"unknown:" + lawName\<close>.
\<close>

definition lookup_law ::
  "(jsstring \<rightharpoonup> law_index) \<Rightarrow> (jsstring \<times> law_index) list \<Rightarrow> jsstring \<Rightarrow> law_index option" where
  "lookup_law titleToLaw abbrevMap n =
     (case titleToLaw n of Some l \<Rightarrow> Some l | None \<Rightarrow> map_of abbrevMap n)"

definition known_ref :: "law_index \<Rightarrow> law_index \<Rightarrow> jsstring \<Rightarrow> ref_type \<Rightarrow> reference" where
  "known_ref fromLaw law n t =
     \<lparr>from_law_id = id' fromLaw, from_law_title = title fromLaw, to_law_id = Some (id' law),
      to_law_title = n, to_law_num = lawNum law, article = None, paragraph' = None,
      item = None, ref_type = t\<rparr>"

definition phase2_step ::
  "law_index \<Rightarrow> (jsstring \<rightharpoonup> law_index) \<Rightarrow> (jsstring \<times> law_index) list \<Rightarrow> captures
     \<Rightarrow> extract_state \<Rightarrow> extract_state" where
  "phase2_step fromLaw titleToLaw abbrevMap g st =
     (case st of (references, seen) \<Rightarrow>
        let lawName = captured g 1; lawNum = captured g 2 in
        case lookup_law titleToLaw abbrevMap lawName of
          Some knownLaw \<Rightarrow>
            if id' knownLaw \<notin> seen \<and> id' knownLaw \<noteq> id' fromLaw
            then (references @ [known_ref fromLaw knownLaw lawName law_num_ref],
                  insert (id' knownLaw) seen)
            else st
        | None \<Rightarrow>
            let key = ascii ''unknown:'' @ lawName in
            if key \<notin> seen
            then (references @
                    [\<lparr>from_law_id = id' fromLaw, from_law_title = title fromLaw,
                      to_law_id = None, to_law_title = lawName, to_law_num = Some lawNum,
                      article = None, paragraph' = None, item = None,
                      ref_type = unknown_law\<rparr>],
                  insert key seen)
            else st)"

definition phase3_step ::
  "law_index \<Rightarrow> (jsstring \<rightharpoonup> law_index) \<Rightarrow> (jsstring \<times> law_index) list \<Rightarrow> captures
     \<Rightarrow> extract_state \<Rightarrow> extract_state" where
  "phase3_step fromLaw titleToLaw abbrevMap g st =
     (case st of (references, seen) \<Rightarrow>
        let originalLawName = captured g 1 in
        case lookup_law titleToLaw abbrevMap originalLawName of
          Some originalLaw \<Rightarrow>
            if id' originalLaw \<notin> seen \<and> id' originalLaw \<noteq> id' fromLaw
            then (references @ [known_ref fromLaw originalLaw originalLawName amendment_ref],
                  insert (id' originalLaw) seen)
            else st
        | None \<Rightarrow> st)"

definition extractReferences ::
  "jsstring \<Rightarrow> law_index \<Rightarrow> (jsstring \<times> law_index) list \<Rightarrow> (jsstring \<rightharpoonup> law_index)
     \<Rightarrow> (jsstring \<times> law_index) list \<Rightarrow> reference list option" where
  "extractReferences xmlContent fromLaw knownLawNames titleToLaw abbrevMap =
     (let st1 = fold (phase1_step xmlContent fromLaw) knownLawNames ([], {}) in
      case exec_all unknownLawWithNumPattern xmlContent of
        None \<Rightarrow> None
      | Some ms2 \<Rightarrow>
          let st2 = fold (phase2_step fromLaw titleToLaw abbrevMap) ms2 st1 in
          (case exec_all amendmentPattern xmlContent of
             None \<Rightarrow> None
           | Some ms3 \<Rightarrow> Some (fst (fold (phase3_step fromLaw titleToLaw abbrevMap) ms3 st2))))"

text \<open>
  The message handler of the worker builds \<^verbatim>\<open>titleToLaw\<close> and \<^verbatim>\<open>lawIdMap\<close> (later
  entries overwrite earlier ones), \<^verbatim>\<open>abbrevMap\<close> (of an abbreviation entry it reads only
  \<^verbatim>\<open>value.law_id\<close>, absent when the entry or the field is missing; \<^verbatim>\<open>Map.set\<close> keeps the
  place of an existing key) and \<^verbatim>\<open>knownLawNames\<close>: all titles, then all abbreviations,
  sorted by descending length of the name (a stable sort). \<open>analyze_document\<close> is one
  pass of its loop over the files: for the file of a law id, with the text read from it,
  it calls \<^verbatim>\<open>extractReferences\<close>; a file whose id is not in the registry is passed over.
\<close>

definition titleToLaw :: "law_index list \<Rightarrow> (jsstring \<rightharpoonup> law_index)" where
  "titleToLaw lawIndex = fold (\<lambda>law m. m(title law \<mapsto> law)) lawIndex Map.empty"

definition lawIdMap :: "law_index list \<Rightarrow> (jsstring \<rightharpoonup> law_index)" where
  "lawIdMap lawIndex = fold (\<lambda>law m. m(id' law \<mapsto> law)) lawIndex Map.empty"

fun map_set :: "('k \<times> 'v) list \<Rightarrow> 'k \<Rightarrow> 'v \<Rightarrow> ('k \<times> 'v) list" where
  "map_set [] k v = [(k, v)]"
| "map_set ((k', v') # m) k v = (if k' = k then (k', v) # m else (k', v') # map_set m k v)"

definition abbrevMap ::
  "law_index list \<Rightarrow> (jsstring \<times> jsstring option) list \<Rightarrow> (jsstring \<times> law_index) list" where
  "abbrevMap lawIndex abbreviations =
     fold (\<lambda>(key, value_law_id) m.
             case value_law_id of
               None \<Rightarrow> m
             | Some lid \<Rightarrow>
                 if truthy lid
                 then (case lawIdMap lawIndex lid of
                         Some law \<Rightarrow> map_set m key law
                       | None \<Rightarrow> m)
                 else m)
       abbreviations []"

definition knownLawNames ::
  "law_index list \<Rightarrow> (jsstring \<times> jsstring option) list \<Rightarrow> (jsstring \<times> law_index) list" where
  "knownLawNames lawIndex abbreviations =
     sort_key (\<lambda>(name, law). - int (length name))
       (map (\<lambda>law. (title law, law)) lawIndex @ abbrevMap lawIndex abbreviations)"

definition analyze_document ::
  "law_index list \<Rightarrow> (jsstring \<times> jsstring option) list \<Rightarrow> jsstring \<Rightarrow> jsstring
     \<Rightarrow> reference list option" where
  "analyze_document lawIndex abbreviations lawId xmlContent =
     (case lawIdMap lawIndex lawId of
        None \<Rightarrow> Some []
      | Some fromLaw \<Rightarrow>
          extractReferences xmlContent fromLaw (knownLawNames lawIndex abbreviations)
            (titleToLaw lawIndex) (abbrevMap lawIndex abbreviations))"

text \<open>
  The scenario registry, \<^verbatim>\<open>{id: "A", title: U+6C11 U+6CD5}\<close> and
  \<^verbatim>\<open>{id: "B", title: U+4F1A U+793E U+6CD5}\<close> with no other field, and the text of the
  partial-match scenario, in which the title of A follows the ideograph U+524D.
\<close>

definition minpo :: law_index where
  "minpo = \<lparr>id' = ascii ''A'', lawNum = None, title = [0x6C11, 0x6CD5], category = []\<rparr>"

definition kaishaho :: law_index where
  "kaishaho = \<lparr>id' = ascii ''B'', lawNum = None, title = [0x4F1A, 0x793E, 0x6CD5], category = []\<rparr>"

definition guard_scenario_text :: jsstring where
  "guard_scenario_text = [0x6539, 0x6B63, 0x524D, 0x6C11, 0x6CD5, 0x7B2C, 0x4E00, 0x6761]"

lemmas extract_eval = analyze_document_def lawIdMap_def titleToLaw_def abbrevMap_def
  knownLawNames_def extractReferences_def phase1_step_def phase2_step_def phase3_step_def
  lookup_law_def known_ref_def captured_def truthy_opt_def truthy_def
  unknownLawWithNumPattern_def amendmentPattern_def articlePattern_def lawNumPattern_def
  exec_all.simps regex_eval

subsection \<open>The two loops over matches end\<close>

text \<open>
  A matcher keeps the input when every successful match hands its continuation an input
  no longer than the one it got, and shrinks it when that input is strictly shorter.
  Both global patterns shrink the input, so every match moves \<^verbatim>\<open>lastIndex\<close> forward.
\<close>

definition keeps :: "matcher \<Rightarrow> bool" where
  "keeps m = (\<forall>k st r. m k st = Some r \<longrightarrow>
                (\<exists>st'. k st' = Some r \<and> length (fst st') \<le> length (fst st)))"

definition shrinks :: "matcher \<Rightarrow> bool" where
  "shrinks m = (\<forall>k st r. m k st = Some r \<longrightarrow>
                (\<exists>st'. k st' = Some r \<and> length (fst st') < length (fst st)))"

lemma shrinks_keeps: "shrinks m \<Longrightarrow> keeps m"
  unfolding shrinks_def keeps_def by (meson less_imp_le)

lemma shrinks_cls: "shrinks (cls P)"
  unfolding shrinks_def cls_def by (auto split: list.splits if_splits)

lemma shrinks_chr: "shrinks (chr c)"
  unfolding chr_def by (rule shrinks_cls)

lemma keeps_seq: "keeps m1 \<Longrightarrow> keeps m2 \<Longrightarrow> keeps (seq m1 m2)"
  unfolding keeps_def seq_def by (meson le_trans)

lemma shrinks_seq: "shrinks m1 \<Longrightarrow> keeps m2 \<Longrightarrow> shrinks (seq m1 m2)"
  unfolding keeps_def shrinks_def seq_def by (meson less_le_trans le_less_trans)

lemma keeps_id: "keeps (\<lambda>k. k)"
  unfolding keeps_def by blast

lemma keeps_lit: "keeps (lit s)"
  unfolding lit_def
  by (induction s) (auto intro: keeps_id keeps_seq shrinks_keeps shrinks_chr)

lemma keeps_alt: "keeps m1 \<Longrightarrow> keeps m2 \<Longrightarrow> keeps (alt m1 m2)"
  unfolding keeps_def alt_def by (auto split: option.splits)

lemma keeps_grp: "keeps m \<Longrightarrow> keeps (grp i m)"
proof -
  assume m: "keeps m"
  show ?thesis
    unfolding keeps_def
  proof (intro allI impI)
    fix k st r
    assume "grp i m k st = Some r"
    then have "m (\<lambda>st'. k (fst st',
        (snd st')(i \<mapsto> take (length (fst st) - length (fst st')) (fst st)))) st = Some r"
      by (simp add: grp_def)
    with m obtain st' where
      "k (fst st', (snd st')(i \<mapsto> take (length (fst st) - length (fst st')) (fst st))) = Some r"
      and "length (fst st') \<le> length (fst st)"
      unfolding keeps_def by blast
    then show "\<exists>st'. k st' = Some r \<and> length (fst st') \<le> length (fst st)"
      by (metis fst_conv)
  qed
qed

lemma shrinks_grp: "shrinks m \<Longrightarrow> shrinks (grp i m)"
proof -
  assume m: "shrinks m"
  show ?thesis
    unfolding shrinks_def
  proof (intro allI impI)
    fix k st r
    assume "grp i m k st = Some r"
    then have "m (\<lambda>st'. k (fst st',
        (snd st')(i \<mapsto> take (length (fst st) - length (fst st')) (fst st)))) st = Some r"
      by (simp add: grp_def)
    with m obtain st' where
      "k (fst st', (snd st')(i \<mapsto> take (length (fst st) - length (fst st')) (fst st))) = Some r"
      and "length (fst st') < length (fst st)"
      unfolding shrinks_def by blast
    then show "\<exists>st'. k st' = Some r \<and> length (fst st') < length (fst st)"
      by (metis fst_conv)
  qed
qed

lemma rep_lazy_keeps_aux:
  assumes m: "keeps m"
  shows "rep_lazy lo hi m k st = Some r \<Longrightarrow>
           \<exists>st'. k st' = Some r \<and> length (fst st') \<le> length (fst st)"
proof (induction hi arbitrary: lo st)
  case 0
  then have "k st = Some r" by (subst (asm) rep_lazy.simps) (simp split: if_splits)
  then show ?case by (intro exI [of _ st]) simp
next
  case (Suc hi)
  have step: "\<exists>st'. k st' = Some r \<and> length (fst st') \<le> length (fst st)"
    if "m (rep_lazy lo' hi m k) st = Some r" for lo'
  proof -
    from m that obtain st1 where "rep_lazy lo' hi m k st1 = Some r"
      and "length (fst st1) \<le> length (fst st)"
      unfolding keeps_def by blast
    with Suc.IH [of lo' st1] show ?thesis by (meson le_trans)
  qed
  from Suc.prems have "k st = Some r \<or> (\<exists>lo'. m (rep_lazy lo' hi m k) st = Some r)"
    by (subst (asm) rep_lazy.simps) (auto split: if_splits option.splits)
  then show ?case
  proof
    assume "k st = Some r"
    then show ?thesis by (intro exI [of _ st]) simp
  next
    assume "\<exists>lo'. m (rep_lazy lo' hi m k) st = Some r"
    then obtain lo' where "m (rep_lazy lo' hi m k) st = Some r" ..
    then show ?thesis by (rule step)
  qed
qed

lemma keeps_rep_lazy: "keeps m \<Longrightarrow> keeps (rep_lazy lo hi m)"
  unfolding keeps_def [of "rep_lazy lo hi m"] by (blast dest: rep_lazy_keeps_aux)

lemma shrinks_rep_lazy:
  assumes m: "shrinks m" and lo: "0 < lo"
  shows "shrinks (rep_lazy lo hi m)"
  unfolding shrinks_def
proof (intro allI impI)
  fix k st r
  assume h: "rep_lazy lo hi m k st = Some r"
  from h lo have "m (rep_lazy (lo - 1) (hi - 1) m k) st = Some r"
    by (subst (asm) rep_lazy.simps) (auto split: if_splits)
  with m obtain st1 where r1: "rep_lazy (lo - 1) (hi - 1) m k st1 = Some r"
    and "length (fst st1) < length (fst st)"
    unfolding shrinks_def by blast
  with rep_lazy_keeps_aux [OF shrinks_keeps [OF m] r1]
  show "\<exists>st'. k st' = Some r \<and> length (fst st') < length (fst st)"
    by (meson le_less_trans)
qed

lemma keeps_era: "keeps era"
  unfolding era_def by (intro keeps_alt keeps_lit)

lemma keeps_law_num: "keeps (law_num i)"
  unfolding law_num_def
  by (intro keeps_seq keeps_grp keeps_rep_lazy keeps_era shrinks_keeps shrinks_chr shrinks_cls)

lemma shrinks_unknownLawWithNumPattern: "shrinks unknownLawWithNumPattern"
  unfolding unknownLawWithNumPattern_def
  by (intro shrinks_seq shrinks_grp shrinks_rep_lazy shrinks_cls keeps_alt keeps_lit
      keeps_law_num) simp

lemma shrinks_amendmentPattern: "shrinks amendmentPattern"
  unfolding amendmentPattern_def
  by (intro shrinks_seq shrinks_grp shrinks_rep_lazy shrinks_cls keeps_seq keeps_grp
      keeps_alt keeps_lit) simp

lemma search_shrinks:
  assumes "shrinks m"
  shows "search m s = Some r \<Longrightarrow> length (fst r) < length s"
proof (induction s)
  case Nil
  then have "m Some ([], Map.empty) = Some r" by (simp add: match_at_def)
  with assms obtain st' :: mstate where "length (fst st') < length (fst (([], Map.empty) :: mstate))"
    unfolding shrinks_def by blast
  then show ?case by simp
next
  case (Cons c cs)
  show ?case
  proof (cases "match_at m (c # cs)")
    case None
    with Cons show ?thesis by simp
  next
    case (Some r')
    with Cons.prems have "m Some (c # cs, Map.empty) = Some r" by (simp add: match_at_def)
    with assms show ?thesis unfolding shrinks_def by fastforce
  qed
qed

lemma exec_all_total:
  assumes "shrinks m"
  shows "\<exists>ms. exec_all m s = Some ms"
proof (induction s rule: length_induct)
  case (1 s)
  show ?case
  proof (cases "search m s")
    case None
    then show ?thesis by (simp add: exec_all.simps)
  next
    case (Some r)
    obtain rest caps where r: "r = (rest, caps)" by (cases r)
    from search_shrinks [OF assms Some] r have "length rest < length s" by simp
    with 1 obtain ms where "exec_all m rest = Some ms" by blast
    with Some r show ?thesis by (subst exec_all.simps) simp
  qed
qed


subsection \<open>Properties of the extraction\<close>

text \<open>What every pushed reference satisfies: it comes from the document's law, and a
  target id, when set, is another law's id and belongs to the registry.\<close>

definition well_formed_ref :: "law_index list \<Rightarrow> law_index \<Rightarrow> reference \<Rightarrow> bool" where
  "well_formed_ref lawIndex fromLaw r =
     (from_law_id r = id' fromLaw \<and>
      (\<forall>t. to_law_id r = Some t \<longrightarrow> t \<noteq> id' fromLaw \<and> t \<in> id' ` set lawIndex))"

lemma phase1_step_ok:
  assumes "snd cand \<in> set lawIndex" and "\<forall>r \<in> set (fst st). well_formed_ref lawIndex fromLaw r"
  shows "\<forall>r \<in> set (fst (phase1_step xmlContent fromLaw cand st)). well_formed_ref lawIndex fromLaw r"
proof -
  obtain name law where c: "cand = (name, law)" by (cases cand)
  obtain references seen where st: "st = (references, seen)" by (cases st)
  from assms c have "law \<in> set lawIndex" by simp
  then have "id' law \<in> id' ` set lawIndex" by simp
  with assms(2) show ?thesis
    unfolding c st phase1_step_def
    by (auto simp: well_formed_ref_def Let_def split: option.splits)
qed

lemma phase1_fold_ok:
  assumes "\<forall>c \<in> set cands. snd c \<in> set lawIndex"
    and "\<forall>r \<in> set (fst st). well_formed_ref lawIndex fromLaw r"
  shows "\<forall>r \<in> set (fst (fold (phase1_step xmlContent fromLaw) cands st)).
           well_formed_ref lawIndex fromLaw r"
  using assms
proof (induction cands arbitrary: st)
  case Nil
  then show ?case by simp
next
  case (Cons c cands)
  have "\<forall>r \<in> set (fst (phase1_step xmlContent fromLaw c st)). well_formed_ref lawIndex fromLaw r"
    using Cons.prems by (intro phase1_step_ok) simp_all
  with Cons show ?case by simp
qed

lemma phase2_step_ok:
  assumes "\<And>n l. lookup_law tmap amap n = Some l \<Longrightarrow> l \<in> set lawIndex"
    and "\<forall>r \<in> set (fst st). well_formed_ref lawIndex fromLaw r"
  shows "\<forall>r \<in> set (fst (phase2_step fromLaw tmap amap g st)).
           well_formed_ref lawIndex fromLaw r"
proof -
  obtain references seen where st: "st = (references, seen)" by (cases st)
  show ?thesis
  proof (cases "lookup_law tmap amap (captured g 1)")
    case None
    with assms(2) show ?thesis
      unfolding st phase2_step_def by (auto simp: well_formed_ref_def Let_def)
  next
    case (Some knownLaw)
    then have "id' knownLaw \<in> id' ` set lawIndex" using assms(1) by blast
    with Some assms(2) show ?thesis
      unfolding st phase2_step_def by (auto simp: well_formed_ref_def known_ref_def Let_def)
  qed
qed

lemma phase3_step_ok:
  assumes "\<And>n l. lookup_law tmap amap n = Some l \<Longrightarrow> l \<in> set lawIndex"
    and "\<forall>r \<in> set (fst st). well_formed_ref lawIndex fromLaw r"
  shows "\<forall>r \<in> set (fst (phase3_step fromLaw tmap amap g st)).
           well_formed_ref lawIndex fromLaw r"
proof -
  obtain references seen where st: "st = (references, seen)" by (cases st)
  show ?thesis
  proof (cases "lookup_law tmap amap (captured g 1)")
    case None
    with assms(2) show ?thesis
      unfolding st phase3_step_def by (auto simp: Let_def)
  next
    case (Some originalLaw)
    then have "id' originalLaw \<in> id' ` set lawIndex" using assms(1) by blast
    with Some assms(2) show ?thesis
      unfolding st phase3_step_def by (auto simp: well_formed_ref_def known_ref_def Let_def)
  qed
qed

lemma fold_step_ok:
  assumes step: "\<And>g st. \<forall>r \<in> set (fst st). P r \<Longrightarrow> \<forall>r \<in> set (fst (f g st)). P r"
  shows "\<forall>r \<in> set (fst st). P r \<Longrightarrow> \<forall>r \<in> set (fst (fold f gs st)). P r"
proof (induction gs arbitrary: st)
  case Nil
  then show ?case by simp
next
  case (Cons g gs)
  from Cons.IH [OF step [OF Cons.prems]] show ?case by simp
qed

lemma extractReferences_total:
  "\<exists>refs. extractReferences xmlContent fromLaw cands tmap amap = Some refs"
proof -
  obtain ms2 where m2: "exec_all unknownLawWithNumPattern xmlContent = Some ms2"
    using exec_all_total [OF shrinks_unknownLawWithNumPattern] by blast
  obtain ms3 where m3: "exec_all amendmentPattern xmlContent = Some ms3"
    using exec_all_total [OF shrinks_amendmentPattern] by blast
  show ?thesis by (simp add: extractReferences_def m2 m3 Let_def)
qed

lemma extractReferences_ok:
  assumes cands: "\<forall>c \<in> set cands. snd c \<in> set lawIndex"
    and look: "\<And>n l. lookup_law tmap amap n = Some l \<Longrightarrow> l \<in> set lawIndex"
    and res: "extractReferences xmlContent fromLaw cands tmap amap = Some refs"
  shows "\<forall>r \<in> set refs. well_formed_ref lawIndex fromLaw r"
proof -
  let ?P = "well_formed_ref lawIndex fromLaw"
  let ?st1 = "fold (phase1_step xmlContent fromLaw) cands ([], {})"
  from res obtain ms2 ms3 where
    refs: "refs = fst (fold (phase3_step fromLaw tmap amap) ms3
                    (fold (phase2_step fromLaw tmap amap) ms2 ?st1))"
    by (auto simp: extractReferences_def Let_def split: option.splits)
  have 1: "\<forall>r \<in> set (fst ?st1). ?P r"
    using cands by (intro phase1_fold_ok) simp_all
  have 2: "\<forall>r \<in> set (fst (fold (phase2_step fromLaw tmap amap) ms2 ?st1)). ?P r"
    using 1 by (rule fold_step_ok [rotated]) (rule phase2_step_ok [OF look])
  have "\<forall>r \<in> set (fst (fold (phase3_step fromLaw tmap amap) ms3
                    (fold (phase2_step fromLaw tmap amap) ms2 ?st1))). ?P r"
    using 2 by (rule fold_step_ok [rotated]) (rule phase3_step_ok [OF look])
  with refs show ?thesis by simp
qed

lemma fold_upd_in:
  "fold (\<lambda>law m. m(key law \<mapsto> law)) laws m0 k = Some l \<Longrightarrow>
     m0 k = Some l \<or> (l \<in> set laws \<and> key l = k)"
  by (induction laws arbitrary: m0) (fastforce split: if_splits)+

lemma titleToLaw_in: "titleToLaw lawIndex n = Some l \<Longrightarrow> l \<in> set lawIndex"
  unfolding titleToLaw_def by (drule fold_upd_in) simp

lemma lawIdMap_in: "lawIdMap lawIndex i = Some l \<Longrightarrow> l \<in> set lawIndex \<and> id' l = i"
  unfolding lawIdMap_def by (drule fold_upd_in) simp

lemma map_set_values: "snd ` set (map_set m k v) \<subseteq> insert v (snd ` set m)"
  by (induction m k v rule: map_set.induct) auto

lemma map_set_in:
  assumes "snd ` set m \<subseteq> S" and "v \<in> S"
  shows "snd ` set (map_set m k v) \<subseteq> S"
  using map_set_values [of m k v] assms by blast

lemma abbrevMap_fold_in:
  assumes "snd ` set m \<subseteq> set lawIndex"
  shows "snd ` set (fold (\<lambda>(key, value_law_id) m.
             case value_law_id of
               None \<Rightarrow> m
             | Some lid \<Rightarrow>
                 if truthy lid
                 then (case lawIdMap lawIndex lid of
                         Some law \<Rightarrow> map_set m key law
                       | None \<Rightarrow> m)
                 else m) abbreviations m) \<subseteq> set lawIndex"
  using assms
proof (induction abbreviations arbitrary: m)
  case Nil
  then show ?case by simp
next
  case (Cons a abbreviations)
  obtain key v where a: "a = (key, v)" by (cases a)
  let ?m = "case v of
               None \<Rightarrow> m
             | Some lid \<Rightarrow>
                 if truthy lid
                 then (case lawIdMap lawIndex lid of
                         Some law \<Rightarrow> map_set m key law
                       | None \<Rightarrow> m)
                 else m"
  have "snd ` set ?m \<subseteq> set lawIndex"
  proof (cases v)
    case None
    with Cons.prems show ?thesis by simp
  next
    case (Some lid)
    show ?thesis
    proof (cases "lawIdMap lawIndex lid")
      case None
      with Some Cons.prems show ?thesis by simp
    next
      case (Some law)
      then have "law \<in> set lawIndex" by (simp add: lawIdMap_in)
      from map_set_in [OF Cons.prems this] Some \<open>v = Some lid\<close> Cons.prems
      show ?thesis by simp
    qed
  qed
  from Cons.IH [OF this] a show ?case by simp
qed

lemma abbrevMap_in: "snd ` set (abbrevMap lawIndex abbreviations) \<subseteq> set lawIndex"
  unfolding abbrevMap_def by (rule abbrevMap_fold_in) simp

lemma knownLawNames_in:
  "\<forall>c \<in> set (knownLawNames lawIndex abbreviations). snd c \<in> set lawIndex"
  using abbrevMap_in [of lawIndex abbreviations] by (auto simp: knownLawNames_def)

lemma lookup_law_in:
  assumes "lookup_law (titleToLaw lawIndex) (abbrevMap lawIndex abbreviations) n = Some l"
  shows "l \<in> set lawIndex"
proof (cases "titleToLaw lawIndex n")
  case (Some l')
  with assms have "l' = l" by (simp add: lookup_law_def)
  with Some show ?thesis by (simp add: titleToLaw_in)
next
  case None
  with assms have "map_of (abbrevMap lawIndex abbreviations) n = Some l"
    by (simp add: lookup_law_def)
  then have "(n, l) \<in> set (abbrevMap lawIndex abbreviations)" by (rule map_of_SomeD)
  then have "l \<in> snd ` set (abbrevMap lawIndex abbreviations)" by force
  with abbrevMap_in show ?thesis by blast
qed


text \<open>The reference that the extraction yields on the scenario text.\<close>

definition scenario_reference :: reference where
  "scenario_reference =
     \<lparr>from_law_id = ascii ''B'', from_law_title = [0x4F1A, 0x793E, 0x6CD5],
      to_law_id = Some (ascii ''A''), to_law_title = [0x6C11, 0x6CD5], to_law_num = None,
      article = None, paragraph' = None, item = None, ref_type = law_num_ref\<rparr>"

lemma scenario_number_eval:
  "analyze_document [minpo, kaishaho] [] (ascii ''B'') number_scenario_text = Some [scenario_reference]"
  by (simp add: extract_eval minpo_def kaishaho_def number_scenario_text_def ascii_def
      scenario_reference_def)

lemma scenario_guard_eval:
  "analyze_document [minpo, kaishaho] [] (ascii ''B'') guard_scenario_text = Some []"
  by (simp add: extract_eval minpo_def kaishaho_def guard_scenario_text_def ascii_def)

text \<open>
  Claim C1 says that on the scenario the extractor yields one reference with the number
  read from the text, the article "article 3" and the type \<^verbatim>\<open>article_ref\<close>. It does not:
  the article pattern is anchored at the character right behind the name, which is the
  opening parenthesis.
\<close>

theorem lookahead_article_counterexample:
  "map_option (map (\<lambda>r. (from_law_id r, to_law_id r, to_law_num r, article r, ref_type r)))
     (analyze_document [minpo, kaishaho] [] (ascii ''B'') number_scenario_text)
   \<noteq> Some [(ascii ''B'', Some (ascii ''A''),
             Some [0x660E, 0x6CBB, 0x4E8C, 0x5341, 0x4E5D, 0x5E74, 0x6CD5, 0x5F8B, 0x7B2C,
                   0x516B, 0x5341, 0x4E5D, 0x53F7],
             Some [0x7B2C, 0x4E09, 0x6761], article_ref)]"
  by (simp add: scenario_number_eval scenario_reference_def)

text \<open>
  Claim C1, amended. On the scenario the extractor yields exactly one reference: from B
  to A, under the title of A, with \<^verbatim>\<open>to_law_num\<close> the registry's \<^verbatim>\<open>lawNum\<close> of A (absent
  in this registry), no article, paragraph or item, and the type \<^verbatim>\<open>law_num_ref\<close>. It is
  the hit of Phase 1; Phase 2 adds nothing.
\<close>

theorem scenario_number_reference:
  "analyze_document [minpo, kaishaho] [] (ascii ''B'') number_scenario_text =
     Some [\<lparr>from_law_id = ascii ''B'', from_law_title = title kaishaho,
            to_law_id = Some (ascii ''A''), to_law_title = title minpo,
            to_law_num = lawNum minpo, article = None, paragraph' = None, item = None,
            ref_type = law_num_ref\<rparr>]"
  unfolding scenario_number_eval scenario_reference_def
  by (simp add: minpo_def kaishaho_def)

text \<open>
  Claim C2. For every registry, abbreviation table and document, the extraction returns,
  and every reference it emits whose \<^verbatim>\<open>to_law_id\<close> is set has a \<^verbatim>\<open>to_law_id\<close> different
  from its \<^verbatim>\<open>from_law_id\<close> that is the id of a law of the registry, in all three phases.
\<close>

theorem extracted_targets_in_registry:
  "(\<exists>refs. analyze_document lawIndex abbreviations lawId xmlContent = Some refs) \<and>
   (\<forall>refs r t. analyze_document lawIndex abbreviations lawId xmlContent = Some refs \<and>
        r \<in> set refs \<and> to_law_id r = Some t
      \<longrightarrow> from_law_id r = lawId \<and> from_law_id r \<noteq> t \<and> t \<in> id' ` set lawIndex)"
proof (cases "lawIdMap lawIndex lawId")
  case None
  then show ?thesis by (simp add: analyze_document_def)
next
  case (Some fromLaw)
  then have fid: "id' fromLaw = lawId" by (simp add: lawIdMap_in)
  let ?run = "extractReferences xmlContent fromLaw (knownLawNames lawIndex abbreviations)
            (titleToLaw lawIndex) (abbrevMap lawIndex abbreviations)"
  have run: "analyze_document lawIndex abbreviations lawId xmlContent = ?run"
    using Some by (simp add: analyze_document_def)
  have tot: "\<exists>refs. ?run = Some refs" by (rule extractReferences_total)
  have inv: "from_law_id r = lawId \<and> from_law_id r \<noteq> t \<and> t \<in> id' ` set lawIndex"
    if "?run = Some refs" "r \<in> set refs" "to_law_id r = Some t" for refs r t
  proof -
    have "\<forall>r \<in> set refs. well_formed_ref lawIndex fromLaw r"
    proof (rule extractReferences_ok [OF knownLawNames_in _ that(1)])
      fix n l
      assume "lookup_law (titleToLaw lawIndex) (abbrevMap lawIndex abbreviations) n = Some l"
      then show "l \<in> set lawIndex" by (rule lookup_law_in)
    qed
    with that(2) have "well_formed_ref lawIndex fromLaw r" by blast
    with that(3) fid show ?thesis by (auto simp: well_formed_ref_def)
  qed
  show ?thesis unfolding run using tot inv by blast
qed

theorem extracted_targets_in_registry_witness:
  "analyze_document [minpo, kaishaho] [] (ascii ''B'') number_scenario_text = Some [scenario_reference] \<and>
   to_law_id scenario_reference = Some (ascii ''A'') \<and>
   from_law_id scenario_reference = ascii ''B'' \<and>
   from_law_id scenario_reference \<noteq> ascii ''A'' \<and>
   ascii ''A'' \<in> id' ` set [minpo, kaishaho]"
proof -
  have t: "to_law_id scenario_reference = Some (ascii ''A'')"
    by (simp add: scenario_reference_def)
  have m: "scenario_reference \<in> set [scenario_reference]" by simp
  from extracted_targets_in_registry [of "[minpo, kaishaho]" "[]" "ascii ''B''" number_scenario_text]
    scenario_number_eval t m
  show ?thesis by blast
qed

text \<open>
  Claim C8. In Phase 1, when the first occurrence of a candidate name is right behind an
  ideograph or kana, the pass leaves the references and the set \<^verbatim>\<open>seen\<close> as they are. In
  the scenario text the title of A occurs once, behind U+524D: Phase 1 emits nothing, and
  neither does the whole extraction.
\<close>

theorem partial_match_guard:
  "(indexOf xmlContent name = Some pos \<and> 0 < pos \<and> kanji_kana (xmlContent ! (pos - 1))
      \<longrightarrow> phase1_step xmlContent fromLaw (name, law) (references, seen) = (references, seen)) \<and>
   indexOf guard_scenario_text (title minpo) = Some 3 \<and> kanji_kana (guard_scenario_text ! 2) \<and>
   fold (phase1_step guard_scenario_text kaishaho) (knownLawNames [minpo, kaishaho] []) ([], {}) = ([], {}) \<and>
   analyze_document [minpo, kaishaho] [] (ascii ''B'') guard_scenario_text = Some []"
proof -
  have a: "phase1_step xmlContent fromLaw (name, law) (references, seen) = (references, seen)"
    if "indexOf xmlContent name = Some pos" "0 < pos" "kanji_kana (xmlContent ! (pos - 1))"
    using that by (simp add: phase1_step_def)
  have b: "indexOf guard_scenario_text (title minpo) = Some 3"
    by (simp add: guard_scenario_text_def minpo_def)
  have c: "kanji_kana (guard_scenario_text ! 2)"
    by (simp add: guard_scenario_text_def kanji_kana_def)
  have d: "fold (phase1_step guard_scenario_text kaishaho) (knownLawNames [minpo, kaishaho] []) ([], {})
      = ([], {})"
    by (simp add: extract_eval minpo_def kaishaho_def guard_scenario_text_def ascii_def)
  from a b c d scenario_guard_eval show ?thesis by blast
qed

theorem partial_match_guard_witness:
  "indexOf guard_scenario_text (title minpo) = Some 3 \<and> (0::nat) < 3 \<and> kanji_kana (guard_scenario_text ! (3 - 1)) \<and>
   phase1_step guard_scenario_text kaishaho (title minpo, minpo) ([], {}) = ([], {})"
proof -
  have b: "indexOf guard_scenario_text (title minpo) = Some 3"
    by (simp add: guard_scenario_text_def minpo_def)
  have c: "kanji_kana (guard_scenario_text ! (3 - 1))"
    by (simp add: guard_scenario_text_def kanji_kana_def)
  from partial_match_guard [of guard_scenario_text "title minpo" 3 kaishaho minpo "[]" "{}"] b c
  show ?thesis by simp
qed

end
